theory Spec2Isabelle
  imports Complex_Main "HOL-Library.AList"
begin

section \<open>Data model of the inference core (worker/agents/inferutils/core.ts)\<close>

text \<open>
  JSON values as \<open>JSON.parse\<close> produces them. An object is the list of its own
  properties in enumeration order.
\<close>

datatype json =
    JNull
  | JBool bool
  | JNum rat
  | JStr string
  | JArr "json list"
  | JObj "(string \<times> json) list"

text \<open>JavaScript truthiness of a JSON value.\<close>

fun truthy :: "json \<Rightarrow> bool" where
  "truthy JNull = False"
| "truthy (JBool b) = b"
| "truthy (JNum n) = (n \<noteq> 0)"
| "truthy (JStr s) = (s \<noteq> [])"
| "truthy (JArr xs) = True"
| "truthy (JObj kvs) = True"

text \<open>
  \<open>String.prototype.trim\<close> removes white space at both ends; a string is blank when
  trimming leaves nothing. Characters are code units below 256: tab, line feed, vertical tab,
  form feed, carriage return, space and the no-break space.
\<close>

definition isWhitespace :: "char \<Rightarrow> bool" where
  "isWhitespace c = (of_char c \<in> {9, 10, 11, 12, 13, 32, 160 :: nat})"

definition blank :: "string \<Rightarrow> bool" where
  "blank s = list_all isWhitespace s"

datatype MessageRole = System | User | Assistant | Tool | Function

datatype ContentPart = TextPart string | ImagePart string

datatype MessageContent = NoContent | Text string | Parts "ContentPart list"

record ToolCall =
  tc_id :: string
  tc_name :: string
  tc_arguments :: string

record Message =
  role :: MessageRole
  content :: MessageContent
  tool_calls :: "ToolCall list option"
  name :: "string option"
  tool_call_id :: "string option"

record ToolCallResult =
  tr_id :: string
  tr_name :: string
  tr_result :: "json option"

record CompletionSignal =
  signaled :: bool
  toolName :: string
  summary :: "string option"

record ToolCallContext =
  messages :: "Message list"
  depth :: nat
  completionSignal :: "CompletionSignal option"
  warningInjected :: "bool option"

text \<open>
  The pluggable completion detector (\<open>CompletionDetector\<close>, declared in
  completionDetection.ts) is an interface with two operations; the core only calls them.
\<close>

record CompletionDetector =
  detectCompletion :: "ToolCallResult list \<Rightarrow> CompletionSignal option"
  isCompletionTool :: "string \<Rightarrow> bool"

section \<open>Context update after a tool round (updateToolCallContext)\<close>

text \<open>
  \<open>stringify\<close> stands for the built-in \<open>JSON.stringify\<close>. A result with a falsy payload
  is acknowledged with the literal \<open>done\<close>.
\<close>

definition toolMessage :: "(json \<Rightarrow> string) \<Rightarrow> ToolCallResult \<Rightarrow> Message" where
  "toolMessage stringify r =
     \<lparr> role = Tool,
       content = Text (case tr_result r of
                         None \<Rightarrow> ''done''
                       | Some v \<Rightarrow> if truthy v then stringify v else ''done''),
       tool_calls = None,
       name = Some (tr_name r),
       tool_call_id = Some (tr_id r) \<rparr>"

definition updateToolCallContext ::
  "(json \<Rightarrow> string) \<Rightarrow> ToolCallContext option \<Rightarrow> Message \<Rightarrow> ToolCallResult list
     \<Rightarrow> CompletionDetector option \<Rightarrow> ToolCallContext" where
  "updateToolCallContext stringify toolCallContext assistantMessage executedToolCalls completionDetector =
     (let newMessages =
            (case toolCallContext of None \<Rightarrow> [] | Some c \<Rightarrow> messages c)
            @ [assistantMessage]
            @ map (toolMessage stringify)
                (filter (\<lambda>r. tr_name r \<noteq> [] \<and> \<not> blank (tr_name r)) executedToolCalls);
          newDepth = (case toolCallContext of None \<Rightarrow> 0 | Some c \<Rightarrow> depth c) + 1;
          previous = (case toolCallContext of None \<Rightarrow> None | Some c \<Rightarrow> completionSignal c);
          signal = (case completionDetector of
                      None \<Rightarrow> previous
                    | Some d \<Rightarrow> (case previous of
                                   None \<Rightarrow> detectCompletion d executedToolCalls
                                 | Some s \<Rightarrow> previous))
      in \<lparr> messages = newMessages,
           depth = newDepth,
           completionSignal = signal,
           warningInjected =
             Some (case toolCallContext of
                     None \<Rightarrow> False
                   | Some c \<Rightarrow> (case warningInjected c of None \<Rightarrow> False | Some b \<Rightarrow> b)) \<rparr>)"

text \<open>
  One executed tool round as the loop hands it to the update: the assistant message, the
  executed results and the detector of the call's completion configuration.
\<close>

type_synonym toolRound = "Message \<times> ToolCallResult list \<times> CompletionDetector option"

fun updateRounds ::
  "(json \<Rightarrow> string) \<Rightarrow> ToolCallContext option \<Rightarrow> toolRound list \<Rightarrow> ToolCallContext option" where
  "updateRounds stringify c [] = c"
| "updateRounds stringify c ((am, ex, det) # rest) =
     updateRounds stringify (Some (updateToolCallContext stringify c am ex det)) rest"

definition signalOf :: "ToolCallContext option \<Rightarrow> CompletionSignal option" where
  "signalOf c = (case c of None \<Rightarrow> None | Some x \<Rightarrow> completionSignal x)"

section \<open>Streaming tool-call accumulator (accumulateToolCallDelta, assembleToolCalls)\<close>

text \<open>
  A streamed fragment: optional stream index, optional id, optional name delta and
  optional argument-string delta (\<open>deltaToolCall.function?.name\<close>,
  \<open>deltaToolCall.function?.arguments\<close>).
\<close>

record ToolCallDelta =
  d_index :: "int option"
  d_id :: "string option"
  d_name :: "string option"
  d_arguments :: "string option"

record ToolAccumulatorEntry =
  e_id :: string
  e_name :: string
  e_arguments :: string
  e_index :: "int option"
  e_order :: nat

text \<open>
  The two lookup maps hold references to shared, mutable entry objects. The entries live
  in a store (address = position); a JavaScript \<open>Map\<close> is an association list in insertion
  order: \<open>set\<close> on a present key keeps its position, on a new key appends
  (\<open>AList.update\<close>), \<open>delete\<close> removes (\<open>AList.delete\<close>).
\<close>

record accumulator =
  entries :: "ToolAccumulatorEntry list"
  byIndex :: "(int \<times> nat) list"
  byId :: "(string \<times> nat) list"
  orderCounter :: nat

definition emptyAccumulator :: accumulator where
  "emptyAccumulator = \<lparr> entries = [], byIndex = [], byId = [], orderCounter = 0 \<rparr>"

text \<open>The id of a fragment when it is truthy (present and not the empty string).\<close>

definition idFromDelta :: "ToolCallDelta \<Rightarrow> string option" where
  "idFromDelta d = (case d_id d of None \<Rightarrow> None | Some s \<Rightarrow> if s = [] then None else Some s)"

definition lookupEntry :: "accumulator \<Rightarrow> ToolCallDelta \<Rightarrow> nat option" where
  "lookupEntry acc d =
     (case (case idFromDelta d of None \<Rightarrow> None | Some i \<Rightarrow> map_of (byId acc) i) of
        Some r \<Rightarrow> Some r
      | None \<Rightarrow> (case d_index d of None \<Rightarrow> None | Some i \<Rightarrow> map_of (byIndex acc) i))"

text \<open>
  \<open>synthIdForIndex\<close> builds an id from the clock, its argument and a random number. The
  parameter \<open>synth\<close> gives the id drawn at the creation of the \<open>n\<close>-th entry for argument
  \<open>i\<close>.
\<close>

definition createEntry :: "(nat \<Rightarrow> int \<Rightarrow> string) \<Rightarrow> accumulator \<Rightarrow> ToolCallDelta \<Rightarrow> accumulator \<times> nat" where
  "createEntry synth acc d =
     (let provisionalId =
            (case idFromDelta d of
               Some i \<Rightarrow> i
             | None \<Rightarrow> synth (orderCounter acc)
                         (case d_index d of Some i \<Rightarrow> i | None \<Rightarrow> int (length (byId acc))));
          r = length (entries acc);
          entry = \<lparr> e_id = provisionalId, e_name = [], e_arguments = [],
                    e_index = d_index d, e_order = orderCounter acc \<rparr>
      in (acc \<lparr> entries := entries acc @ [entry],
                orderCounter := orderCounter acc + 1,
                byIndex := (case d_index d of
                              None \<Rightarrow> byIndex acc
                            | Some i \<Rightarrow> AList.update i r (byIndex acc)),
                byId := AList.update provisionalId r (byId acc) \<rparr>, r))"

definition updateId :: "accumulator \<Rightarrow> nat \<Rightarrow> ToolCallDelta \<Rightarrow> accumulator" where
  "updateId acc r d =
     (case idFromDelta d of
        None \<Rightarrow> acc
      | Some i \<Rightarrow>
          (let entry = entries acc ! r
           in if e_id entry \<noteq> i
              then acc \<lparr> byId := AList.update i r (AList.delete (e_id entry) (byId acc)),
                         entries := (entries acc)[r := entry \<lparr> e_id := i \<rparr>] \<rparr>
              else acc))"

definition registerIndex :: "accumulator \<Rightarrow> nat \<Rightarrow> ToolCallDelta \<Rightarrow> accumulator" where
  "registerIndex acc r d =
     (case d_index d of
        None \<Rightarrow> acc
      | Some i \<Rightarrow>
          (let entry = entries acc ! r
           in if e_index entry = None
              then acc \<lparr> entries := (entries acc)[r := entry \<lparr> e_index := Some i \<rparr>],
                         byIndex := AList.update i r (byIndex acc) \<rparr>
              else acc))"

definition updateName :: "accumulator \<Rightarrow> nat \<Rightarrow> ToolCallDelta \<Rightarrow> accumulator" where
  "updateName acc r d =
     (case d_name d of
        None \<Rightarrow> acc
      | Some n \<Rightarrow>
          if n \<noteq> []
          then acc \<lparr> entries := (entries acc)[r := (entries acc ! r) \<lparr> e_name := n \<rparr>] \<rparr>
          else acc)"

text \<open>
  \<open>parses s\<close> stands for "\<open>JSON.parse(s)\<close> does not throw". The accumulated string counts
  as complete when it is not empty and parses.
\<close>

definition isComplete :: "(string \<Rightarrow> bool) \<Rightarrow> string \<Rightarrow> bool" where
  "isComplete parses s = (s \<noteq> [] \<and> parses s)"

definition appendArguments :: "(string \<Rightarrow> bool) \<Rightarrow> accumulator \<Rightarrow> nat \<Rightarrow> ToolCallDelta \<Rightarrow> accumulator" where
  "appendArguments parses acc r d =
     (case d_arguments d of
        None \<Rightarrow> acc
      | Some chunk \<Rightarrow>
          (let entry = entries acc ! r; before_chunk = e_arguments entry
           in if isComplete parses before_chunk
              then acc
              else acc \<lparr> entries := (entries acc)[r := entry \<lparr> e_arguments := before_chunk @ chunk \<rparr>] \<rparr>))"

definition accumulateToolCallDelta ::
  "(nat \<Rightarrow> int \<Rightarrow> string) \<Rightarrow> (string \<Rightarrow> bool) \<Rightarrow> accumulator \<Rightarrow> ToolCallDelta \<Rightarrow> accumulator" where
  "accumulateToolCallDelta synth parses acc d =
     (case (case lookupEntry acc d of Some r \<Rightarrow> (acc, r) | None \<Rightarrow> createEntry synth acc d) of
        (acc1, r) \<Rightarrow>
          appendArguments parses (updateName (registerIndex (updateId acc1 r d) r d) r d) r d)"

definition toToolCall :: "ToolAccumulatorEntry \<Rightarrow> ToolCall" where
  "toToolCall e = \<lparr> tc_id = e_id e, tc_name = e_name e, tc_arguments = e_arguments e \<rparr>"

text \<open>
  The comparator \<open>a.index! - b.index!\<close> is applied to the values of \<open>byIndex\<close> only, which
  all carry an index; \<open>Array.prototype.sort\<close> is stable, as \<open>sort_key\<close> is.
\<close>

definition indexKey :: "ToolAccumulatorEntry \<Rightarrow> int" where
  "indexKey e = (case e_index e of Some i \<Rightarrow> i | None \<Rightarrow> 0)"

definition assembleToolCalls :: "accumulator \<Rightarrow> ToolCall list" where
  "assembleToolCalls acc =
     (if byIndex acc \<noteq> []
      then map toToolCall (sort_key indexKey (map (\<lambda>(k, r). entries acc ! r) (byIndex acc)))
      else map toToolCall (sort_key e_order (map (\<lambda>(k, r). entries acc ! r) (byId acc))))"

definition accumulateAll ::
  "(nat \<Rightarrow> int \<Rightarrow> string) \<Rightarrow> (string \<Rightarrow> bool) \<Rightarrow> ToolCallDelta list \<Rightarrow> accumulator" where
  "accumulateAll synth parses ds = foldl (accumulateToolCallDelta synth parses) emptyAccumulator ds"

text \<open>The stream assembly of \<open>infer\<close>: assemble, then drop the calls without a name.\<close>

definition named :: "string \<Rightarrow> bool" where
  "named n = (n \<noteq> [] \<and> \<not> blank n)"

definition streamedToolCalls ::
  "(nat \<Rightarrow> int \<Rightarrow> string) \<Rightarrow> (string \<Rightarrow> bool) \<Rightarrow> ToolCallDelta list \<Rightarrow> ToolCall list" where
  "streamedToolCalls synth parses ds =
     filter (\<lambda>tc. named (tc_name tc)) (assembleToolCalls (accumulateAll synth parses ds))"

text \<open>
  The claimed arguments string, in the words of the specification: the concatenation of
  the argument deltas up to and including the first one after which the accumulated string
  is complete, and of all of them when it never is.
\<close>

definition argumentsUpToComplete :: "(string \<Rightarrow> bool) \<Rightarrow> string list \<Rightarrow> string" where
  "argumentsUpToComplete parses chunks =
     (case find (\<lambda>n. isComplete parses (concat (take n chunks))) [1..<Suc (length chunks)] of
        None \<Rightarrow> concat chunks
      | Some n \<Rightarrow> concat (take n chunks))"

definition argumentDeltas :: "ToolCallDelta list \<Rightarrow> string list" where
  "argumentDeltas ds = List.map_filter d_arguments ds"

text \<open>Auxiliary notions for the accumulator proofs: one accumulation step on the arguments
  string, and the shape of the accumulator while a single id has been seen.\<close>

definition argStep :: "(string \<Rightarrow> bool) \<Rightarrow> string \<Rightarrow> string \<Rightarrow> string" where
  "argStep parses a c = (if isComplete parses a then a else a @ c)"

definition argOpt :: "(string \<Rightarrow> bool) \<Rightarrow> string \<Rightarrow> string option \<Rightarrow> string" where
  "argOpt parses a c = (case c of None \<Rightarrow> a | Some ch \<Rightarrow> argStep parses a ch)"

definition singleEntry :: "string \<Rightarrow> string \<Rightarrow> accumulator \<Rightarrow> bool" where
  "singleEntry i a acc =
     (\<exists>e. entries acc = [e] \<and> e_id e = i \<and> e_arguments e = a \<and> byId acc = [(i, 0)]
        \<and> ((byIndex acc = [] \<and> e_index e = None) \<or> (\<exists>k. byIndex acc = [(k, 0)] \<and> e_index e = Some k)))"

text \<open>
  Invariants of the accumulator. When every fragment carries an index, \<open>byIndex\<close> lists
  every stored entry under its own index. When none does, \<open>byId\<close> lists every stored entry
  under its own id, in creation order. Synthesized ids are taken to be fresh: never an id
  that the provider sends, and different at different creations.
\<close>

definition indexedInv :: "accumulator \<Rightarrow> bool" where
  "indexedInv acc =
     (map snd (byIndex acc) = [0..<length (entries acc)]
      \<and> map e_index (entries acc) = map (\<lambda>p. Some (fst p)) (byIndex acc)
      \<and> distinct (map fst (byIndex acc))
      \<and> list_all (\<lambda>p. snd p < length (entries acc)) (byId acc))"

definition freshSynth :: "(nat \<Rightarrow> int \<Rightarrow> string) \<Rightarrow> ToolCallDelta list \<Rightarrow> bool" where
  "freshSynth synth ds =
     ((\<forall>n k. Some (synth n k) \<notin> idFromDelta ` set ds)
      \<and> (\<forall>n k n' k'. synth n k = synth n' k' \<longrightarrow> n = n'))"

definition knownId :: "(nat \<Rightarrow> int \<Rightarrow> string) \<Rightarrow> string set \<Rightarrow> nat \<Rightarrow> string \<Rightarrow> bool" where
  "knownId synth S n i = (i \<in> S \<or> (\<exists>m<n. \<exists>k. i = synth m k))"

definition orderedInv :: "(nat \<Rightarrow> int \<Rightarrow> string) \<Rightarrow> string set \<Rightarrow> accumulator \<Rightarrow> bool" where
  "orderedInv synth S acc =
     (byIndex acc = []
      \<and> byId acc = zip (map e_id (entries acc)) [0..<length (entries acc)]
      \<and> distinct (map e_id (entries acc))
      \<and> map e_order (entries acc) = [0..<length (entries acc)]
      \<and> orderCounter acc = length (entries acc)
      \<and> list_all (knownId synth S (length (entries acc))) (map e_id (entries acc)))"

section \<open>Message sanitizer (optimizeInputs and the context filter of infer)\<close>

definition trim :: "string \<Rightarrow> string" where
  "trim s = rev (dropWhile isWhitespace (rev (dropWhile isWhitespace s)))"

text \<open>
  \<open>optimizeTextContent\<close> applies two regular-expression replacements and a trim. The two
  \<open>String.prototype.replace\<close> calls are parameters: \<open>stripTrailing\<close> for
  \<open>replace(/[ \t]+$/gm, '')\<close> and \<open>collapseBlankLines\<close> for the replacement of runs of
  blank lines.
\<close>

definition optimizeTextContent :: "(string \<Rightarrow> string) \<Rightarrow> (string \<Rightarrow> string) \<Rightarrow> string \<Rightarrow> string" where
  "optimizeTextContent stripTrailing collapseBlankLines c = trim (collapseBlankLines (stripTrailing c))"

definition optimizeMessageContent ::
  "(string \<Rightarrow> string) \<Rightarrow> (string \<Rightarrow> string) \<Rightarrow> MessageContent \<Rightarrow> MessageContent" where
  "optimizeMessageContent stripTrailing collapseBlankLines c =
     (case c of
        NoContent \<Rightarrow> NoContent
      | Text s \<Rightarrow> if s = [] then Text s
                  else Text (optimizeTextContent stripTrailing collapseBlankLines s)
      | Parts ps \<Rightarrow>
          Parts (map (\<lambda>item. case item of
                               TextPart t \<Rightarrow> TextPart (optimizeTextContent stripTrailing collapseBlankLines t)
                             | ImagePart u \<Rightarrow> ImagePart u) ps))"

text \<open>\<open>optimizeInputs\<close> builds new message objects; it writes to none of its inputs.\<close>

definition optimizeInputs ::
  "(string \<Rightarrow> string) \<Rightarrow> (string \<Rightarrow> string) \<Rightarrow> Message list \<Rightarrow> Message list" where
  "optimizeInputs stripTrailing collapseBlankLines ms =
     map (\<lambda>message. message \<lparr> content := optimizeMessageContent stripTrailing collapseBlankLines (content message) \<rparr>) ms"

text \<open>
  The context's messages are objects shared with the caller. The store maps an address to
  the object's current value; \<open>toolCallContext.messages\<close> is a list of addresses.
\<close>

type_synonym heap = "nat \<Rightarrow> Message"

text \<open>A tool message is dropped when its name is missing or blank, or when its
  \<open>tool_call_id\<close> is missing, empty or not among the valid ids.\<close>

definition droppedTool :: "string list \<Rightarrow> Message \<Rightarrow> bool" where
  "droppedTool validToolCallIds msg =
     ((case name msg of None \<Rightarrow> True | Some n \<Rightarrow> blank n)
      \<or> (case tool_call_id msg of None \<Rightarrow> True | Some i \<Rightarrow> i = [] \<or> i \<notin> set validToolCallIds))"

definition carriesToolCalls :: "Message \<Rightarrow> bool" where
  "carriesToolCalls msg = (role msg = Assistant \<and> tool_calls msg \<noteq> None)"

definition toolCallIds :: "Message \<Rightarrow> string list" where
  "toolCallIds msg = (case tool_calls msg of None \<Rightarrow> [] | Some tcs \<Rightarrow> map tc_id tcs)"

text \<open>The \<open>filter\<close> callback, with the variable \<open>validToolCallIds\<close> it updates.\<close>

fun filterContext :: "heap \<Rightarrow> string list \<Rightarrow> nat list \<Rightarrow> nat list" where
  "filterContext h validToolCallIds [] = []"
| "filterContext h validToolCallIds (r # rs) =
     (if carriesToolCalls (h r) then r # filterContext h (toolCallIds (h r)) rs
      else if role (h r) = Tool \<and> droppedTool validToolCallIds (h r)
           then filterContext h validToolCallIds rs
           else r # filterContext h validToolCallIds rs)"

text \<open>
  The \<open>map\<close> callback assigns to \<open>msg.tool_calls\<close> of the object it is given and returns
  that same object.
\<close>

definition pruneToolCalls :: "Message \<Rightarrow> Message" where
  "pruneToolCalls msg =
     (if role msg = Assistant
      then (case tool_calls msg of
              None \<Rightarrow> msg
            | Some tcs \<Rightarrow>
                (let kept = filter (\<lambda>tc. tc_id tc \<noteq> []) tcs
                 in msg \<lparr> tool_calls := (if kept = [] then None else Some kept) \<rparr>))
      else msg)"

fun pruneAll :: "heap \<Rightarrow> nat list \<Rightarrow> heap" where
  "pruneAll h [] = h"
| "pruneAll h (r # rs) = pruneAll (h (r := pruneToolCalls (h r))) rs"

definition sanitizeContext :: "heap \<Rightarrow> nat list \<Rightarrow> heap \<times> nat list" where
  "sanitizeContext h ctxMessages =
     (let filtered = filterContext h [] ctxMessages
      in (pruneAll h filtered, filtered))"

text \<open>
  \<open>messagesToPass\<close> after the sanitizer: the optimized copies of the caller's messages,
  followed by the filtered context messages. The result carries the store as the
  sanitizer leaves it.
\<close>

definition buildMessagesToPass ::
  "(string \<Rightarrow> string) \<Rightarrow> (string \<Rightarrow> string) \<Rightarrow> heap \<Rightarrow> nat list \<Rightarrow> nat list option
     \<Rightarrow> heap \<times> Message list" where
  "buildMessagesToPass stripTrailing collapseBlankLines h baseMessages ctxMessages =
     (let optimizedMessages = optimizeInputs stripTrailing collapseBlankLines (map h baseMessages)
      in case ctxMessages of
           None \<Rightarrow> (h, optimizedMessages)
         | Some refs \<Rightarrow>
             (case sanitizeContext h refs of
                (h', filtered) \<Rightarrow> (h', optimizedMessages @ map h' filtered)))"

text \<open>
  Appending the format instructions rebuilds the last message from its role and content
  alone. On an empty list \<open>lastMessage\<close> is undefined and reading its content throws
  (\<open>None\<close>).
\<close>

definition appendFormatInstructions :: "string \<Rightarrow> Message list \<Rightarrow> Message list option" where
  "appendFormatInstructions formatInstructions messagesToPass =
     (if messagesToPass = [] then None
      else
        (let lastMessage = last messagesToPass;
             separator = [CHR 0x0A, CHR 0x0A]
         in case content lastMessage of
              Text s \<Rightarrow>
                Some (butlast messagesToPass
                      @ [\<lparr> role = role lastMessage,
                            content = Text (s @ separator @ formatInstructions),
                            tool_calls = None, name = None, tool_call_id = None \<rparr>])
            | Parts ps \<Rightarrow>
                Some (butlast messagesToPass
                      @ [\<lparr> role = role lastMessage,
                            content = Parts (map (\<lambda>item. case item of
                                                   TextPart t \<Rightarrow> TextPart (t @ separator @ formatInstructions)
                                                 | ImagePart u \<Rightarrow> ImagePart u) ps),
                            tool_calls = None, name = None, tool_call_id = None \<rparr>])
            | NoContent \<Rightarrow> Some messagesToPass))"

text \<open>
  The specification's notion of an orphan, by position: the valid ids at position \<open>i\<close> are
  the ids of the tool calls of the most recent message before \<open>i\<close> that is an assistant
  message carrying \<open>tool_calls\<close> (\<open>initial\<close> when there is none); a tool message is an
  orphan when its name is missing or blank or its \<open>tool_call_id\<close> is missing, empty or not
  among them.
\<close>

definition validIdsAt :: "string list \<Rightarrow> Message list \<Rightarrow> nat \<Rightarrow> string list" where
  "validIdsAt initial ms i =
     (case find carriesToolCalls (rev (take i ms)) of
        None \<Rightarrow> initial
      | Some m \<Rightarrow> toolCallIds m)"

definition orphanAt :: "string list \<Rightarrow> Message list \<Rightarrow> nat \<Rightarrow> bool" where
  "orphanAt initial ms i = (role (ms ! i) = Tool \<and> droppedTool (validIdsAt initial ms i) (ms ! i))"

text \<open>Auxiliary, for the proofs: the filter on message values, and a scan that checks that
  no tool message is an orphan.\<close>

fun filterValues :: "string list \<Rightarrow> Message list \<Rightarrow> Message list" where
  "filterValues valid [] = []"
| "filterValues valid (m # ms) =
     (if carriesToolCalls m then m # filterValues (toolCallIds m) ms
      else if role m = Tool \<and> droppedTool valid m then filterValues valid ms
      else m # filterValues valid ms)"

fun linked :: "string list \<Rightarrow> Message list \<Rightarrow> bool" where
  "linked valid [] = True"
| "linked valid (m # ms) =
     (if carriesToolCalls m then linked (toolCallIds m) ms
      else (\<not> (role m = Tool \<and> droppedTool valid m)) \<and> linked valid ms)"





section \<open>Structured-output repair (normalizeBlueprintData)\<close>

text \<open>
  Own property keys are enumerated with the array indices first. \<open>{ name: key, ...obj }\<close>
  creates \<open>name\<close> before the copied string keys, so in the result it follows the array-index
  keys of \<open>obj\<close> and precedes its other keys. It is only built when \<open>obj\<close> has no such key.
\<close>

definition isDigit :: "char \<Rightarrow> bool" where
  "isDigit c = (48 \<le> (of_char c :: nat) \<and> (of_char c :: nat) \<le> 57)"

definition decimalValue :: "string \<Rightarrow> int" where
  "decimalValue s = foldl (\<lambda>n c. 10 * n + (of_char c - 48)) 0 s"

definition isArrayIndex :: "string \<Rightarrow> bool" where
  "isArrayIndex s =
     (s \<noteq> [] \<and> list_all isDigit s \<and> (hd s \<noteq> CHR ''0'' \<or> s = ''0'') \<and> decimalValue s < 4294967295)"

definition withKeyFirst :: "string \<Rightarrow> json \<Rightarrow> (string \<times> json) list \<Rightarrow> (string \<times> json) list" where
  "withKeyFirst k v obj =
     takeWhile (\<lambda>p. isArrayIndex (fst p)) obj @ [(k, v)] @ dropWhile (\<lambda>p. isArrayIndex (fst p)) obj"

text \<open>
  \<open>normalized.k = f(normalized.k)\<close> for a key that is present: the property keeps its place.
\<close>

definition modifyField :: "string \<Rightarrow> (json \<Rightarrow> json) \<Rightarrow> (string \<times> json) list \<Rightarrow> (string \<times> json) list" where
  "modifyField k f obj = (case map_of obj k of None \<Rightarrow> obj | Some v \<Rightarrow> AList.update k (f v) obj)"

text \<open>
  One entry of \<open>Object.entries\<close> turned into an array item: an object value that lacks the
  identifying field receives the entry's key under that field. (The normalized value of an
  object is an object; the other branch of the inner case is never taken.)
\<close>

definition entryToItem :: "string \<Rightarrow> (json \<Rightarrow> json) \<Rightarrow> string \<times> json \<Rightarrow> json" where
  "entryToItem idField recur entry =
     (case entry of (key, value) \<Rightarrow>
        (case value of
           JObj members \<Rightarrow>
             if map_of members idField = None
             then (case recur value of
                     JObj normalized \<Rightarrow> JObj (withKeyFirst idField (JStr key) normalized)
                   | other \<Rightarrow> JObj [(idField, JStr key)])
             else recur value
         | _ \<Rightarrow> recur value))"

definition objectToArray :: "string \<Rightarrow> (json \<Rightarrow> json) \<Rightarrow> json \<Rightarrow> json" where
  "objectToArray idField recur v =
     (case v of
        JObj es \<Rightarrow> JArr (map (entryToItem idField recur) es)
      | JArr xs \<Rightarrow> JArr (map recur xs)
      | _ \<Rightarrow> v)"

definition filesToArray :: "(json \<Rightarrow> json) \<Rightarrow> json \<Rightarrow> json" where
  "filesToArray recur v =
     (case v of
        JObj es \<Rightarrow> JArr (map (entryToItem ''path'' recur) es)
      | _ \<Rightarrow> v)"

definition isString :: "json \<Rightarrow> bool" where
  "isString v = (case v of JStr s \<Rightarrow> True | _ \<Rightarrow> False)"

definition stringValues :: "json \<Rightarrow> json" where
  "stringValues v =
     (case v of
        JObj es \<Rightarrow> JArr (filter isString (map snd es))
      | JArr xs \<Rightarrow> JArr (filter isString xs)
      | _ \<Rightarrow> v)"

text \<open>Congruence rules for the recursive definition, and the size facts its termination needs.\<close>

lemma modifyField_cong [fundef_cong]:
  "obj = obj' \<Longrightarrow> k = k' \<Longrightarrow> (\<And>v. map_of obj' k' = Some v \<Longrightarrow> f v = f' v)
   \<Longrightarrow> modifyField k f obj = modifyField k' f' obj'"
  by (auto simp: modifyField_def split: option.splits)

lemma entryToItem_cong [fundef_cong]:
  "entry = entry' \<Longrightarrow> idField = idField' \<Longrightarrow> recur (snd entry') = recur' (snd entry')
   \<Longrightarrow> entryToItem idField recur entry = entryToItem idField' recur' entry'"
  by (auto simp: entryToItem_def split: prod.splits json.splits)

lemma objectToArray_cong [fundef_cong]:
  "v = v' \<Longrightarrow> idField = idField'
   \<Longrightarrow> (\<And>es e. v' = JObj es \<Longrightarrow> e \<in> set es \<Longrightarrow> recur (snd e) = recur' (snd e))
   \<Longrightarrow> (\<And>xs x. v' = JArr xs \<Longrightarrow> x \<in> set xs \<Longrightarrow> recur x = recur' x)
   \<Longrightarrow> objectToArray idField recur v = objectToArray idField' recur' v'"
  by (auto simp: objectToArray_def split: json.splits intro!: entryToItem_cong)

lemma filesToArray_cong [fundef_cong]:
  "v = v'
   \<Longrightarrow> (\<And>es e. v' = JObj es \<Longrightarrow> e \<in> set es \<Longrightarrow> recur (snd e) = recur' (snd e))
   \<Longrightarrow> filesToArray recur v = filesToArray recur' v'"
  by (auto simp: filesToArray_def split: json.splits intro!: entryToItem_cong)

text \<open>
  The six fields are rewritten one after the other on the copy \<open>normalized = {...raw}\<close>.
  The \<open>files\<close> member is read from the normalized \<open>initialPhase\<close>, as in the source.
\<close>

function (sequential) normalizeBlueprintData :: "json \<Rightarrow> json" where
  "normalizeBlueprintData (JArr xs) = JArr (map normalizeBlueprintData xs)"
| "normalizeBlueprintData (JObj raw) =
     JObj (modifyField ''colorPalette'' stringValues
          (modifyField ''frameworks'' stringValues
          (modifyField ''pitfalls'' stringValues
          (modifyField ''initialPhase''
             (\<lambda>v. case v of
                     JObj members \<Rightarrow>
                       (case normalizeBlueprintData v of
                          JObj normalized \<Rightarrow>
                            JObj (modifyField ''files'' (filesToArray normalizeBlueprintData) normalized)
                        | other \<Rightarrow> other)
                   | _ \<Rightarrow> v)
          (modifyField ''implementationRoadmap'' (objectToArray ''phase'' normalizeBlueprintData)
          (modifyField ''views'' (objectToArray ''name'' normalizeBlueprintData) raw))))))"
| "normalizeBlueprintData raw = raw"
  by pat_completeness auto


lemma size_member: "map_of obj k = Some v \<Longrightarrow> size v < size (JObj obj)"
proof (induction obj)
  case Nil
  then show ?case by simp
next
  case (Cons p obj)
  then show ?case by (cases p) (auto split: if_splits)
qed

lemma size_entry: "e \<in> set es \<Longrightarrow> size (snd e) < Suc (size_list (size_prod (\<lambda>x. 0) size) es)"
proof (induction es)
  case Nil
  then show ?case by simp
next
  case (Cons p es)
  then show ?case by (cases p) auto
qed

lemma size_item: "x \<in> set xs \<Longrightarrow> size x < Suc (size_list size xs)"
  by (induction xs) auto

lemma map_of_modifyField_other:
  "k \<noteq> k' \<Longrightarrow> map_of (modifyField k f obj) k' = map_of obj k'"
  by (simp add: modifyField_def update_conv' split: option.splits)

lemma map_of_modifyField_same:
  "map_of (modifyField k f obj) k = map_option f (map_of obj k)"
  by (simp add: modifyField_def update_conv' split: option.splits)

lemma normalize_keeps_files_p:
  assumes "normalizeBlueprintData_dom (JObj raw)" and "normalizeBlueprintData (JObj raw) = JObj normalized"
  shows "map_of normalized ''files'' = map_of raw ''files''"
  using assms by (auto simp: normalizeBlueprintData.psimps map_of_modifyField_other)

termination normalizeBlueprintData
proof (relation "measure size", goal_cases)
  case 1
  then show ?case by simp
next
  case (2 xs x)
  then show ?case by (simp add: size_item)
next
  case (3 raw v es e)
  from 3(1) have "size v < size (JObj raw)" by (rule size_member)
  moreover from 3(2,3) have "size (snd e) < size v" by (simp add: size_entry)
  ultimately show ?case by simp
next
  case (4 raw v xs x)
  from 4(1) have "size v < size (JObj raw)" by (rule size_member)
  moreover from 4(2,3) have "size x < size v" by (simp add: size_item)
  ultimately show ?case by simp
next
  case (5 raw v es e)
  from 5(1) have "map_of raw ''implementationRoadmap'' = Some v"
    by (simp add: map_of_modifyField_other)
  then have "size v < size (JObj raw)" by (rule size_member)
  moreover from 5(2,3) have "size (snd e) < size v" by (simp add: size_entry)
  ultimately show ?case by simp
next
  case (6 raw v xs x)
  from 6(1) have "map_of raw ''implementationRoadmap'' = Some v"
    by (simp add: map_of_modifyField_other)
  then have "size v < size (JObj raw)" by (rule size_member)
  moreover from 6(2,3) have "size x < size v" by (simp add: size_item)
  ultimately show ?case by simp
next
  case (7 raw v members)
  from 7(1) have "map_of raw ''initialPhase'' = Some v"
    by (simp add: map_of_modifyField_other)
  then have "size v < size (JObj raw)" by (rule size_member)
  then show ?case by simp
next
  case (8 raw v members normalized fv es e)
  from 8(1) have "map_of raw ''initialPhase'' = Some v"
    by (simp add: map_of_modifyField_other)
  then have a: "size v < size (JObj raw)" by (rule size_member)
  have "map_of normalized ''files'' = map_of members ''files''"
    using 8 by (intro normalize_keeps_files_p) simp_all
  with 8 have "map_of members ''files'' = Some fv" by simp
  then have "size fv < size (JObj members)" by (rule size_member)
  moreover from 8 have "size (snd e) < size fv" by (simp add: size_entry)
  ultimately show ?case using a 8 by simp
qed

text \<open>The members of a normalized object, and the rewrite of the \<open>initialPhase\<close> field, by name.\<close>

definition normalizeMembers :: "(string \<times> json) list \<Rightarrow> (string \<times> json) list" where
  "normalizeMembers raw =
     modifyField ''colorPalette'' stringValues
          (modifyField ''frameworks'' stringValues
          (modifyField ''pitfalls'' stringValues
          (modifyField ''initialPhase''
             (\<lambda>v. case v of
                     JObj members \<Rightarrow>
                       (case normalizeBlueprintData v of
                          JObj normalized \<Rightarrow>
                            JObj (modifyField ''files'' (filesToArray normalizeBlueprintData) normalized)
                        | other \<Rightarrow> other)
                   | _ \<Rightarrow> v)
          (modifyField ''implementationRoadmap'' (objectToArray ''phase'' normalizeBlueprintData)
          (modifyField ''views'' (objectToArray ''name'' normalizeBlueprintData) raw)))))"

definition initialPhaseField :: "json \<Rightarrow> json" where
  "initialPhaseField v =
     (case v of
        JObj members \<Rightarrow>
          (case normalizeBlueprintData v of
             JObj normalized \<Rightarrow>
               JObj (modifyField ''files'' (filesToArray normalizeBlueprintData) normalized)
           | other \<Rightarrow> other)
      | _ \<Rightarrow> v)"

section \<open>The inference loop (infer, inferGeminiNative)\<close>

subsection \<open>Results and failures\<close>

text \<open>
  What a call throws. The message texts are kept as tags: \<open>MessageLimit n max\<close> is the
  \<open>RateLimitExceededError\<close> of the message-limit check, \<open>MaxDepthExceeded d\<close> the
  \<open>AbortError\<close> of the depth guard. The optional number of a rate-limit error is its
  retry delay in milliseconds.
\<close>

datatype abortReason = MaxDepthExceeded nat | UserCancelled | CompletionSignaled string

datatype inferReason =
  FailedToParse | EmptyGeminiResponse | InvalidGeminiJson | UnknownTool | SchemaValidationFailed

datatype rateLimitReason = MessageLimit nat nat | ApiRateLimit | GeminiRateLimit

datatype failure =
    RateLimitExceededError rateLimitReason "nat option"
  | AbortError abortReason "ToolCallContext option"
  | InferError inferReason string "ToolCallContext option"
  | SecurityError
  | OtherError string

datatype 'o InferResponse =
    InferResponseString string "ToolCallContext option"
  | InferResponseObject 'o "ToolCallContext option"

subsection \<open>Arguments and collaborators\<close>

text \<open>
  The arguments of \<open>infer\<close> that decide its control flow. \<open>schema\<close> tells whether an output
  schema is supplied, \<open>stream\<close> whether a stream sink is, \<open>tools\<close> holds the names of the
  tool definitions, \<open>detector\<close> is \<open>completionConfig?.detector\<close>.
\<close>

record InferArgs =
  actionKey :: string
  baseMessages :: "Message list"
  schema :: bool
  schemaName :: "string option"
  format :: "string option"
  modelName :: string
  stream :: bool
  tools :: "string list option"
  detector :: "CompletionDetector option"

record ModelConfig =
  mc_provider :: string

text \<open>
  A failure of the transport as the catch block reads it: whether it is an abort
  (\<open>error.name === 'AbortError'\<close> or a message containing \<open>abort\<close>), the status
  (\<open>error.status || error.response?.status || error.statusCode\<close>) and the retry-after
  value (\<open>headers['retry-after'] || headers['Retry-After'] || error.retryAfter ||
  error.retry_after\<close>).
\<close>

datatype RetryAfter = RetryAfterString string | RetryAfterNumber rat

record TransportError =
  te_abort :: bool
  te_status :: "int option"
  te_retryAfter :: "RetryAfter option"
  te_text :: string

record StreamEvent =
  ev_content :: "string option"
  ev_tool_calls :: "ToolCallDelta list option"

text \<open>A chat completion: \<open>choices[0]?.message\<close> with its content and tool calls.\<close>

datatype Response =
    StreamResponse "StreamEvent list"
  | ChatCompletion "(string option \<times> ToolCall list option) option"

datatype ToolOutcome = Executed "ToolCallResult list" | ToolsThrew failure

text \<open>
  The reply of the native endpoint: \<open>res.ok\<close>, \<open>res.status\<close>, the retry-after header
  (\<open>res.headers.get('retry-after') || res.headers.get('Retry-After')\<close>), the error text
  and, for a successful reply, \<open>json?.candidates?.[0]?.content?.parts?.[0]?.text\<close>.
\<close>

record GeminiReply =
  g_ok :: bool
  g_status :: nat
  g_retryAfter :: "string option"
  g_errorText :: string
  g_text :: "string option"

text \<open>
  Everything the core calls but does not define: constants and tables of other modules,
  JavaScript built-ins, the network and the tool executor. The network and the tool
  executor answer per round, and a round is identified by the context it starts from.
\<close>

record 'o Collaborators =
  MAX_LLM_MESSAGES :: nat
  getMaxToolCallingDepth :: "string \<Rightarrow> nat"
  AI_MODEL_CONFIG :: "string \<Rightarrow> ModelConfig option"
  JSON_stringify :: "json \<Rightarrow> string"
  JSON_parse :: "string \<Rightarrow> json option"
  parseFloat :: "string \<Rightarrow> rat option"
  toText :: "json \<Rightarrow> string"
  synthIdForIndex :: "nat \<Rightarrow> int \<Rightarrow> string"
  stripTrailing :: "string \<Rightarrow> string"
  collapseBlankLines :: "string \<Rightarrow> string"
  prepareClient :: "InferArgs \<Rightarrow> failure option"
  generateTemplateForSchema :: "string \<Rightarrow> string"
  createCompletion :: "ToolCallContext option \<Rightarrow> Message list \<Rightarrow> TransportError + Response"
  onAssistantMessage :: "Message \<Rightarrow> failure option"
  executeToolCalls :: "ToolCallContext option \<Rightarrow> ToolCall list \<Rightarrow> ToolOutcome"
  parseContentForSchema :: "string \<Rightarrow> string \<Rightarrow> json option"
  safeParse :: "json \<Rightarrow> 'o option"
  geminiApiKey :: bool
  geminiFetch :: "ToolCallContext option \<Rightarrow> Message list \<Rightarrow> failure + GeminiReply"
  geminiCallId :: "ToolCallContext option \<Rightarrow> string"

definition depthOf :: "ToolCallContext option \<Rightarrow> nat" where
  "depthOf c = (case c of None \<Rightarrow> 0 | Some x \<Rightarrow> depth x)"

definition nonEmpty :: "string option \<Rightarrow> bool" where
  "nonEmpty s = (case s of None \<Rightarrow> False | Some t \<Rightarrow> t \<noteq> [])"

subsection \<open>Provider routing and model names\<close>

definition requiresNativeInference :: "string \<Rightarrow> bool" where
  "requiresNativeInference provider = (provider = ''google-ai-studio'')"

definition startsWith :: "string \<Rightarrow> string \<Rightarrow> bool" where
  "startsWith p s = (take (length p) s = p)"

definition includesText :: "string \<Rightarrow> string \<Rightarrow> bool" where
  "includesText sub s = list_ex (\<lambda>i. take (length sub) (drop i s) = sub) [0..<Suc (length s)]"

text \<open>\<open>replace(/\[.*?\]/, '')\<close>: the first bracketed part on one line is removed.\<close>

fun afterClosing :: "string \<Rightarrow> string option" where
  "afterClosing [] = None"
| "afterClosing (c # cs) =
     (if c = CHR '']'' then Some cs
      else if c = CHR 0x0A \<or> c = CHR 0x0D then None
      else afterClosing cs)"

fun removeBracketed :: "string \<Rightarrow> string" where
  "removeBracketed [] = []"
| "removeBracketed (c # cs) =
     (if c = CHR ''[''
      then (case afterClosing cs of Some rest \<Rightarrow> rest | None \<Rightarrow> c # removeBracketed cs)
      else c # removeBracketed cs)"

definition rewriteModelName :: "string \<Rightarrow> string \<Rightarrow> string" where
  "rewriteModelName provider name0 =
     (let n1 = removeBracketed name0;
          n2 = (if provider = ''deepseek'' \<and> startsWith ''deepseek/'' n1 then drop 9 n1 else n1)
      in if provider = ''grok''
         then (let n3 = (if startsWith ''grok/'' n2 then drop 5 n2 else n2)
               in if startsWith ''grok-2'' n3 then n3 else ''grok-2-1212'')
         else n2)"

subsection \<open>Transport errors of the standard path\<close>

definition retryDelayMs :: "(string \<Rightarrow> rat option) \<Rightarrow> RetryAfter option \<Rightarrow> nat" where
  "retryDelayMs pf retryAfterHeader =
     (case retryAfterHeader of
        None \<Rightarrow> 60000
      | Some (RetryAfterString s) \<Rightarrow>
          (if s = [] then 60000
           else (case pf s of
                   None \<Rightarrow> 60000
                 | Some secs \<Rightarrow> if secs > 0 then nat \<lceil>secs * 1000\<rceil> else 60000))
      | Some (RetryAfterNumber secs) \<Rightarrow>
          (if secs > 0 then nat \<lceil>secs * 1000\<rceil> else 60000))"

definition classifyTransportError ::
  "(string \<Rightarrow> rat option) \<Rightarrow> ToolCallContext option \<Rightarrow> TransportError \<Rightarrow> failure" where
  "classifyTransportError pf toolCallContext err =
     (if te_abort err then AbortError UserCancelled toolCallContext
      else if te_status err = Some 429
           then RateLimitExceededError ApiRateLimit (Some (retryDelayMs pf (te_retryAfter err)))
           else OtherError (te_text err))"

subsection \<open>Rate limiting on the native path\<close>

text \<open>Property reads on parsed JSON; \<open>None\<close> is \<open>undefined\<close>.\<close>

definition member :: "json \<Rightarrow> string \<Rightarrow> json option" where
  "member v k = (case v of JObj kvs \<Rightarrow> map_of kvs k | _ \<Rightarrow> None)"

definition optMember :: "json option \<Rightarrow> string \<Rightarrow> json option" where
  "optMember v k = (case v of None \<Rightarrow> None | Some JNull \<Rightarrow> None | Some x \<Rightarrow> member x k)"

definition stripSuffixS :: "string \<Rightarrow> string" where
  "stripSuffixS s = (if s \<noteq> [] \<and> last s = CHR ''s'' then butlast s else s)"

text \<open>
  \<open>details?.find(d => d['@type'] === ...RetryInfo)\<close>. The outer \<open>None\<close> is a thrown
  \<open>TypeError\<close>: \<open>details\<close> is not an array, or an element before the match is \<open>null\<close>.
\<close>

fun findRetryInfo :: "json list \<Rightarrow> json option option" where
  "findRetryInfo [] = Some None"
| "findRetryInfo (d # ds) =
     (if d = JNull then None
      else if member d ''@type'' = Some (JStr ''type.googleapis.com/google.rpc.RetryInfo'')
           then Some (Some d)
           else findRetryInfo ds)"

definition retryInfoOf :: "json \<Rightarrow> json option option" where
  "retryInfoOf errorJson =
     (case optMember (optMember (Some errorJson) ''error'') ''details'' of
        None \<Rightarrow> Some None
      | Some JNull \<Rightarrow> Some None
      | Some (JArr ds) \<Rightarrow> findRetryInfo ds
      | Some other \<Rightarrow> None)"

definition delaySeconds :: "'o Collaborators \<Rightarrow> json \<Rightarrow> rat" where
  "delaySeconds ext retryDelay =
     (let delayValue = (case member retryDelay ''seconds'' of
                          Some s \<Rightarrow> if truthy s then s else retryDelay
                        | None \<Rightarrow> retryDelay);
          parsed = (case delayValue of
                      JStr s \<Rightarrow> parseFloat ext (stripSuffixS s)
                    | JNum n \<Rightarrow> Some n
                    | other \<Rightarrow> parseFloat ext (toText ext other))
      in case parsed of
           None \<Rightarrow> 34
         | Some secs \<Rightarrow> if secs \<le> 0 then 34 else secs)"

text \<open>
  The body of the \<open>try\<close> block of the 429 branch. Every path through it ends in a
  \<open>throw\<close>: of the rate-limit error carrying the derived delay, or of the error of a
  failed \<open>JSON.parse\<close> or property access.
\<close>

definition geminiTryBlock :: "'o Collaborators \<Rightarrow> GeminiReply \<Rightarrow> failure + unit" where
  "geminiTryBlock ext res =
     (case JSON_parse ext (g_errorText res) of
        None \<Rightarrow> Inl (OtherError ''SyntaxError'')
      | Some errorJson \<Rightarrow>
          (if nonEmpty (g_retryAfter res)
           then (let retryDelaySeconds =
                       (case parseFloat ext (the (g_retryAfter res)) of
                          None \<Rightarrow> 34
                        | Some parsed \<Rightarrow> if parsed > 0 then parsed else 34)
                 in Inl (RateLimitExceededError GeminiRateLimit
                           (Some (nat \<lceil>retryDelaySeconds * 1000\<rceil>))))
           else (case retryInfoOf errorJson of
                   None \<Rightarrow> Inl (OtherError ''TypeError'')
                 | Some retryInfo \<Rightarrow>
                     (let retryDelaySeconds =
                            (case optMember retryInfo ''retryDelay'' of
                               None \<Rightarrow> 34
                             | Some rd \<Rightarrow> if truthy rd then delaySeconds ext rd else 34)
                      in Inl (RateLimitExceededError GeminiRateLimit
                                (Some (nat \<lceil>retryDelaySeconds * 1000\<rceil>)))))))"

text \<open>
  The 429 branch: \<open>try { ... } catch (parseError) { throw new RateLimitExceededError(...,
  34000) }\<close>. The \<open>catch\<close> receives whatever the block throws.
\<close>

definition geminiRateLimited :: "'o Collaborators \<Rightarrow> GeminiReply \<Rightarrow> failure" where
  "geminiRateLimited ext res =
     (case geminiTryBlock ext res of
        Inl parseError \<Rightarrow> RateLimitExceededError GeminiRateLimit (Some 34000)
      | Inr u \<Rightarrow> OtherError (''Gemini API error: '' @ g_errorText res))"

definition geminiFailure :: "'o Collaborators \<Rightarrow> GeminiReply \<Rightarrow> failure" where
  "geminiFailure ext res =
     (if g_status res = 429 then geminiRateLimited ext res
      else OtherError (''Gemini API error: '' @ g_errorText res))"

subsection \<open>One round of the standard path\<close>

text \<open>
  The sanitizer as \<open>infer\<close> runs it. The caller's messages and the context's messages are
  distinct objects, stored one after the other; the context handed on afterwards holds the
  objects as the sanitizer left them.
\<close>

definition sanitizeForRequest ::
  "'o Collaborators \<Rightarrow> Message list \<Rightarrow> ToolCallContext option
     \<Rightarrow> ToolCallContext option \<times> Message list" where
  "sanitizeForRequest ext base toolCallContext =
     (case toolCallContext of
        None \<Rightarrow> (None, optimizeInputs (stripTrailing ext) (collapseBlankLines ext) base)
      | Some c \<Rightarrow>
          (let store = (\<lambda>r. (base @ messages c) ! r);
               nb = length base;
               ctxRefs = [nb..<nb + length (messages c)]
           in case buildMessagesToPass (stripTrailing ext) (collapseBlankLines ext) store
                     [0..<nb] (Some ctxRefs) of
                (store', sent) \<Rightarrow> (Some (c \<lparr> messages := map store' ctxRefs \<rparr>), sent)))"

text \<open>
  Everything before the request is issued: the collaborators that may refuse the call
  (user settings, the rate-limit service, credentials), the model name, the forced format,
  the sanitizer and the format instructions. The result is the rewritten model name, the
  context and the messages to send.
\<close>

definition forcedFormat :: "ModelConfig \<Rightarrow> InferArgs \<Rightarrow> string \<Rightarrow> string option" where
  "forcedFormat cfg args name' =
     (let isClaudeModel = includesText ''claude'' name';
          isDeepSeekModel = (mc_provider cfg = ''deepseek'');
          needsStructuredOutput = (schema args \<and> nonEmpty (schemaName args) \<and> \<not> nonEmpty (format args))
      in if (isClaudeModel \<or> isDeepSeekModel) \<and> needsStructuredOutput
         then Some ''markdown''
         else format args)"

definition prepareRequest ::
  "'o Collaborators \<Rightarrow> ModelConfig \<Rightarrow> InferArgs \<Rightarrow> ToolCallContext option
     \<Rightarrow> failure + (string \<times> ToolCallContext option \<times> Message list)" where
  "prepareRequest ext cfg args toolCallContext =
     (case prepareClient ext args of
        Some f \<Rightarrow> Inl f
      | None \<Rightarrow>
          (let name' = rewriteModelName (mc_provider cfg) (modelName args);
               forced = forcedFormat cfg args name'
           in case sanitizeForRequest ext (baseMessages args) toolCallContext of
                (ctx', messagesToPass) \<Rightarrow>
                  (if nonEmpty forced
                   then (if \<not> schema args \<or> \<not> nonEmpty (schemaName args)
                         then Inl (OtherError ''Schema and schemaName are required when using a custom format'')
                         else (case appendFormatInstructions
                                      (generateTemplateForSchema ext (the forced)) messagesToPass of
                                 None \<Rightarrow> Inl (OtherError ''TypeError'')
                               | Some withInstructions \<Rightarrow> Inr (name', ctx', withInstructions)))
                   else Inr (name', ctx', messagesToPass))))"

text \<open>Content and tool calls of the response; \<open>None\<close> when reading it throws.\<close>

definition dropUnnamed :: "ToolCall list \<Rightarrow> ToolCall list" where
  "dropUnnamed tcs = filter (\<lambda>tc. named (tc_name tc)) tcs"

definition readResponse ::
  "'o Collaborators \<Rightarrow> bool \<Rightarrow> Response \<Rightarrow> (string \<times> ToolCall list) option" where
  "readResponse ext streaming response =
     (case response of
        StreamResponse events \<Rightarrow>
          (if streaming
           then Some (concat (map (\<lambda>e. case ev_content e of None \<Rightarrow> [] | Some c \<Rightarrow> c) events),
                      streamedToolCalls (synthIdForIndex ext) (\<lambda>s. JSON_parse ext s \<noteq> None)
                        (concat (map (\<lambda>e. case ev_tool_calls e of None \<Rightarrow> [] | Some ds \<Rightarrow> ds) events)))
           else None)
      | ChatCompletion message \<Rightarrow>
          (let text = (case message of None \<Rightarrow> [] | Some (c, tcs) \<Rightarrow> (case c of None \<Rightarrow> [] | Some t \<Rightarrow> t));
               calls = (case message of None \<Rightarrow> [] | Some (c, tcs) \<Rightarrow> (case tcs of None \<Rightarrow> [] | Some l \<Rightarrow> l))
           in if streaming then Some (text, calls) else Some (text, dropUnnamed calls)))"

text \<open>
  A round ends the call (\<open>Done\<close>) or asks for the recursive call with the arguments and
  the context to pass (\<open>Recurse\<close>).
\<close>

datatype 'o step = Done "failure + 'o InferResponse" | Recurse InferArgs ToolCallContext

definition signalSummary :: "CompletionSignal \<Rightarrow> string" where
  "signalSummary s = (if nonEmpty (summary s) then the (summary s) else ''Task complete'')"

definition isSignaled :: "ToolCallContext \<Rightarrow> bool" where
  "isSignaled c = (case completionSignal c of None \<Rightarrow> False | Some s \<Rightarrow> signaled s)"

text \<open>Final validation of a structured answer: parse, repair, validate.\<close>

definition parseStructured ::
  "'o Collaborators \<Rightarrow> InferArgs \<Rightarrow> ToolCallContext option \<Rightarrow> string \<Rightarrow> failure + 'o InferResponse" where
  "parseStructured ext args toolCallContext text =
     (case (if nonEmpty (format args)
            then parseContentForSchema ext (the (format args)) text
            else JSON_parse ext text) of
        None \<Rightarrow> Inl (InferError FailedToParse text toolCallContext)
      | Some parsedContent \<Rightarrow>
          (case safeParse ext (normalizeBlueprintData parsedContent) of
             None \<Rightarrow> Inl (InferError FailedToParse text toolCallContext)
           | Some obj \<Rightarrow> Inr (InferResponseObject obj toolCallContext)))"

text \<open>
  The arguments of the recursive call. The structured branch passes everything but the
  runtime overrides; the other branch passes neither schema nor format. Both pass the
  rewritten model name.
\<close>

definition recursiveArgs :: "InferArgs \<Rightarrow> string \<Rightarrow> InferArgs" where
  "recursiveArgs args name' =
     (if schema args \<and> nonEmpty (schemaName args)
      then args \<lparr> modelName := name' \<rparr>
      else args \<lparr> modelName := name', schema := False, schemaName := None, format := None \<rparr>)"

text \<open>The part of a round that follows the execution of the tools.\<close>

definition afterTools ::
  "'o Collaborators \<Rightarrow> InferArgs \<Rightarrow> string \<Rightarrow> ToolCallContext option \<Rightarrow> string \<Rightarrow> Message
     \<Rightarrow> ToolCallResult list \<Rightarrow> 'o step" where
  "afterTools ext args name' toolCallContext text assistantMessage executedToolCalls =
     (if executedToolCalls \<noteq> []
      then
        (let newToolCallContext =
               updateToolCallContext (JSON_stringify ext) toolCallContext
                 assistantMessage executedToolCalls (detector args)
         in if isSignaled newToolCallContext
            then (if schema args \<and> nonEmpty (schemaName args)
                  then Done (Inl (AbortError
                         (CompletionSignaled (signalSummary (the (completionSignal newToolCallContext))))
                         (Some newToolCallContext)))
                  else Done (Inr (InferResponseString
                         (if text \<noteq> [] then text
                          else signalSummary (the (completionSignal newToolCallContext)))
                         (Some newToolCallContext))))
            else if filter (\<lambda>r. tr_result r \<noteq> None
                              \<and> \<not> (case detector args of
                                       None \<Rightarrow> False
                                     | Some d \<Rightarrow> isCompletionTool d (tr_name r)))
                       executedToolCalls \<noteq> []
                 then Recurse (recursiveArgs args name') newToolCallContext
                 else Done (Inr (InferResponseString text (Some newToolCallContext))))
      else if \<not> schema args
           then Done (Inr (InferResponseString text toolCallContext))
           else Done (parseStructured ext args toolCallContext text))"

text \<open>
  The tools run only when tool definitions were passed. An abort thrown by the executor
  ends the call with the text so far; any other error is logged and the round goes on with
  no results.
\<close>

definition handleToolCalls ::
  "'o Collaborators \<Rightarrow> InferArgs \<Rightarrow> string \<Rightarrow> ToolCallContext option \<Rightarrow> string \<Rightarrow> Message
     \<Rightarrow> ToolOutcome \<Rightarrow> 'o step" where
  "handleToolCalls ext args name' toolCallContext text assistantMessage outcome =
     (case outcome of
        Executed rs \<Rightarrow> afterTools ext args name' toolCallContext text assistantMessage rs
      | ToolsThrew e \<Rightarrow>
          (case e of
             AbortError why c \<Rightarrow>
               Done (Inr (InferResponseString text
                       (Some (updateToolCallContext (JSON_stringify ext) toolCallContext
                                assistantMessage [] (detector args)))))
           | other \<Rightarrow> afterTools ext args name' toolCallContext text assistantMessage []))"

definition handleResponse ::
  "'o Collaborators \<Rightarrow> InferArgs \<Rightarrow> string \<Rightarrow> ToolCallContext option \<Rightarrow> Response \<Rightarrow> 'o step" where
  "handleResponse ext args name' toolCallContext response =
     (case readResponse ext (stream args) response of
        None \<Rightarrow> Done (Inl (OtherError ''TypeError''))
      | Some (text, toolCalls) \<Rightarrow>
          (let assistantMessage = \<lparr> role = Assistant, content = Text text, tool_calls = Some toolCalls,
                                    name = None, tool_call_id = None \<rparr>
           in case onAssistantMessage ext assistantMessage of
                Some f \<Rightarrow> Done (Inl f)
              | None \<Rightarrow>
                  if text = [] \<and> \<not> stream args \<and> toolCalls = []
                  then Done (Inr (InferResponseString [] toolCallContext))
                  else handleToolCalls ext args name' toolCallContext text assistantMessage
                         (case tools args of
                            None \<Rightarrow> Executed []
                          | Some ts \<Rightarrow> executeToolCalls ext toolCallContext toolCalls)))"

text \<open>A round, with the list of the requests it sent to the network (none or one).\<close>

definition inferRound ::
  "'o Collaborators \<Rightarrow> ModelConfig \<Rightarrow> InferArgs \<Rightarrow> ToolCallContext option
     \<Rightarrow> 'o step \<times> Message list list" where
  "inferRound ext cfg args toolCallContext =
     (case prepareRequest ext cfg args toolCallContext of
        Inl f \<Rightarrow> (Done (Inl f), [])
      | Inr (name', ctx', messagesToPass) \<Rightarrow>
          (case createCompletion ext ctx' messagesToPass of
             Inl err \<Rightarrow> (Done (Inl (classifyTransportError (parseFloat ext) ctx' err)), [messagesToPass])
           | Inr response \<Rightarrow> (handleResponse ext args name' ctx' response, [messagesToPass])))"

subsection \<open>One round of the native path\<close>

text \<open>
  The prompt of the native path is built from the caller's messages alone; the request is
  recorded as that message list. A \<open>thought\<close> or \<open>final\<close> value that is not a string is
  kept as its text.
\<close>

definition asText :: "'o Collaborators \<Rightarrow> json \<Rightarrow> string" where
  "asText ext v = (case v of JStr s \<Rightarrow> s | other \<Rightarrow> toText ext other)"

text \<open>The tool intent of the native protocol: one tool call, executed, then the recursion.\<close>

definition nativeToolRound ::
  "'o Collaborators \<Rightarrow> InferArgs \<Rightarrow> ToolCallContext option \<Rightarrow> json \<Rightarrow> json \<Rightarrow> string \<Rightarrow> 'o step" where
  "nativeToolRound ext args toolCallContext parsed action tname =
     (let toolCall = \<lparr> tc_id = geminiCallId ext toolCallContext, tc_name = tname,
                       tc_arguments = JSON_stringify ext
                         (case member action ''args'' of
                            None \<Rightarrow> JObj []
                          | Some a \<Rightarrow> if a = JNull then JObj [] else a) \<rparr>;
          assistantMessage =
            \<lparr> role = Assistant,
              content = Text (case member parsed ''thought'' of
                                None \<Rightarrow> []
                              | Some t \<Rightarrow> if truthy t then asText ext t else []),
              tool_calls = Some [toolCall], name = None, tool_call_id = None \<rparr>
      in case executeToolCalls ext toolCallContext [toolCall] of
           ToolsThrew e \<Rightarrow> Done (Inl e)
         | Executed executed \<Rightarrow>
             (let newContext = updateToolCallContext (JSON_stringify ext) toolCallContext
                                 assistantMessage executed (detector args)
              in if isSignaled newContext
                 then (if schema args
                       then Done (Inl (AbortError
                              (CompletionSignaled (signalSummary (the (completionSignal newContext))))
                              (Some newContext)))
                       else Done (Inr (InferResponseString
                              (signalSummary (the (completionSignal newContext)))
                              (Some newContext))))
                 else Recurse args newContext))"

definition nativeFinal ::
  "'o Collaborators \<Rightarrow> InferArgs \<Rightarrow> ToolCallContext option \<Rightarrow> json \<Rightarrow> string \<Rightarrow> 'o step" where
  "nativeFinal ext args toolCallContext parsed text =
     (let final = (case member parsed ''final'' of
                     None \<Rightarrow> None
                   | Some f \<Rightarrow> if f = JNull then None else Some f)
      in if schema args
         then (case safeParse ext (case final of None \<Rightarrow> parsed | Some f \<Rightarrow> f) of
                 None \<Rightarrow> Done (Inl (InferError SchemaValidationFailed text toolCallContext))
               | Some obj \<Rightarrow> Done (Inr (InferResponseObject obj toolCallContext)))
         else Done (Inr (InferResponseString
                      (case final of None \<Rightarrow> text | Some f \<Rightarrow> asText ext f)
                      toolCallContext)))"

text \<open>
  The name of the requested tool when it is the name of a passed tool definition
  (\<open>tools.find(t => t.name === parsed.action.tool)\<close>).
\<close>

definition requestedTool :: "InferArgs \<Rightarrow> json \<Rightarrow> string option" where
  "requestedTool args action =
     (case member action ''tool'' of
        None \<Rightarrow> None
      | Some t \<Rightarrow> (case t of
                      JStr tname \<Rightarrow> if tname \<in> set (the (tools args)) then Some tname else None
                    | other \<Rightarrow> None))"

definition nativeAnswer ::
  "'o Collaborators \<Rightarrow> InferArgs \<Rightarrow> ToolCallContext option \<Rightarrow> string \<Rightarrow> 'o step" where
  "nativeAnswer ext args toolCallContext text =
     (case JSON_parse ext text of
        None \<Rightarrow> Done (Inl (InferError InvalidGeminiJson text toolCallContext))
      | Some parsed \<Rightarrow>
          if parsed = JNull then Done (Inl (OtherError ''TypeError''))
          else
            (case (case member parsed ''action'' of
                     None \<Rightarrow> None
                   | Some a \<Rightarrow> if truthy a \<and> tools args \<noteq> None then Some a else None) of
               Some action \<Rightarrow>
                 (case requestedTool args action of
                    None \<Rightarrow> Done (Inl (InferError UnknownTool text toolCallContext))
                  | Some tname \<Rightarrow> nativeToolRound ext args toolCallContext parsed action tname)
             | None \<Rightarrow> nativeFinal ext args toolCallContext parsed text))"

definition nativeRound ::
  "'o Collaborators \<Rightarrow> InferArgs \<Rightarrow> ToolCallContext option \<Rightarrow> 'o step \<times> Message list list" where
  "nativeRound ext args toolCallContext =
     (if \<not> geminiApiKey ext then (Done (Inl (OtherError ''Missing GOOGLE_AI_STUDIO_API_KEY'')), [])
      else
        (case geminiFetch ext toolCallContext (baseMessages args) of
           Inl f \<Rightarrow> (Done (Inl f), [baseMessages args])
         | Inr res \<Rightarrow>
             (if \<not> g_ok res then (Done (Inl (geminiFailure ext res)), [baseMessages args])
              else if \<not> nonEmpty (g_text res)
                   then (Done (Inl (InferError EmptyGeminiResponse [] toolCallContext)), [baseMessages args])
                   else (nativeAnswer ext args toolCallContext (the (g_text res)), [baseMessages args]))))"

subsection \<open>The recursion\<close>

definition depthExceeded :: "'o Collaborators \<Rightarrow> InferArgs \<Rightarrow> ToolCallContext option \<Rightarrow> bool" where
  "depthExceeded ext args toolCallContext =
     (depthOf toolCallContext \<ge> getMaxToolCallingDepth ext (actionKey args))"

text \<open>The result of the depth guard.\<close>

definition maxDepthResult ::
  "'o Collaborators \<Rightarrow> InferArgs \<Rightarrow> ToolCallContext option \<Rightarrow> failure + 'o InferResponse" where
  "maxDepthResult ext args toolCallContext =
     (if schema args
      then Inl (AbortError (MaxDepthExceeded (getMaxToolCallingDepth ext (actionKey args))) toolCallContext)
      else Inr (InferResponseString ''[System: Maximum tool calling depth reached.]'' toolCallContext))"

lemma depth_updateToolCallContext:
  "depth (updateToolCallContext stringify c am ex det) = depthOf c + 1"
  by (cases c) (simp_all add: updateToolCallContext_def depthOf_def Let_def)

lemma nativeToolRound_Recurse:
  assumes "nativeToolRound ext args c parsed action tname = Recurse args' c'"
  shows "args' = args \<and> depth c' = depthOf c + 1"
proof (cases "executeToolCalls ext c
        [\<lparr> tc_id = geminiCallId ext c, tc_name = tname,
           tc_arguments = JSON_stringify ext
             (case member action ''args'' of None \<Rightarrow> JObj [] | Some a \<Rightarrow> if a = JNull then JObj [] else a) \<rparr>]")
  case (Executed executed)
  with assms show ?thesis
    by (auto simp: nativeToolRound_def Let_def depth_updateToolCallContext split: if_splits)
next
  case (ToolsThrew e)
  with assms show ?thesis by (simp add: nativeToolRound_def Let_def)
qed

lemma nativeFinal_Done: "nativeFinal ext args c parsed text \<noteq> Recurse args' c'"
  by (simp add: nativeFinal_def Let_def split: option.splits)

lemma nativeAnswer_Recurse:
  assumes "nativeAnswer ext args c text = Recurse args' c'"
  shows "args' = args \<and> depth c' = depthOf c + 1"
proof (cases "JSON_parse ext text")
  case None
  with assms show ?thesis by (simp add: nativeAnswer_def)
next
  case (Some parsed)
  show ?thesis
  proof (cases "parsed = JNull")
    case True
    with assms Some show ?thesis by (simp add: nativeAnswer_def)
  next
    case False
    let ?action = "case member parsed ''action'' of
                     None \<Rightarrow> None
                   | Some a \<Rightarrow> if truthy a \<and> tools args \<noteq> None then Some a else None"
    show ?thesis
    proof (cases ?action)
      case None
      with assms Some False have "nativeFinal ext args c parsed text = Recurse args' c'"
        by (simp add: nativeAnswer_def)
      then show ?thesis by (simp add: nativeFinal_Done)
    next
      case (Some action)
      show ?thesis
      proof (cases "requestedTool args action")
        case None
        with assms \<open>JSON_parse ext text = Some parsed\<close> False Some show ?thesis
          by (simp add: nativeAnswer_def)
      next
        case (Some tname)
        with assms \<open>JSON_parse ext text = Some parsed\<close> False \<open>?action = Some action\<close>
        have "nativeToolRound ext args c parsed action tname = Recurse args' c'"
          by (simp add: nativeAnswer_def)
        then show ?thesis by (rule nativeToolRound_Recurse)
      qed
    qed
  qed
qed

lemma nativeRound_Recurse:
  assumes "nativeRound ext args c = (Recurse args' c', sent)"
  shows "args' = args \<and> depth c' = depthOf c + 1"
proof -
  from assms obtain answer where "nativeAnswer ext args c answer = Recurse args' c'"
    by (auto simp: nativeRound_def split: if_splits sum.splits)
  then show ?thesis by (rule nativeAnswer_Recurse)
qed

function inferGeminiNative ::
  "'o Collaborators \<Rightarrow> InferArgs \<Rightarrow> ToolCallContext option
     \<Rightarrow> (failure + 'o InferResponse) \<times> Message list list" where
  "inferGeminiNative ext args toolCallContext =
     (if depthExceeded ext args toolCallContext
      then (maxDepthResult ext args toolCallContext, [])
      else (case nativeRound ext args toolCallContext of
              (Done result, sent) \<Rightarrow> (result, sent)
            | (Recurse args' newContext, sent) \<Rightarrow>
                (case inferGeminiNative ext args' (Some newContext) of
                   (result, sent') \<Rightarrow> (result, sent @ sent'))))"
  by pat_completeness auto
termination inferGeminiNative
proof (relation "measure (\<lambda>(ext, args, c). getMaxToolCallingDepth ext (actionKey args) - depthOf c)", goal_cases)
  case 1
  then show ?case by simp
next
  case (2 ext args toolCallContext x y args' newContext)
  then have "nativeRound ext args toolCallContext = (Recurse args' newContext, y)" by simp
  then have "args' = args \<and> depth newContext = depthOf toolCallContext + 1"
    by (rule nativeRound_Recurse)
  with 2 show ?case by (simp add: depthExceeded_def depthOf_def)
qed

lemma sanitizeForRequest_depth:
  "depthOf (fst (sanitizeForRequest ext base c)) = depthOf c"
  by (cases c) (simp_all add: sanitizeForRequest_def depthOf_def Let_def split: prod.splits)

lemma prepareRequest_depth:
  assumes "prepareRequest ext cfg args c = Inr (name', c', sent)"
  shows "depthOf c' = depthOf c"
proof -
  obtain c0 m0 where s: "sanitizeForRequest ext (baseMessages args) c = (c0, m0)"
    by (cases "sanitizeForRequest ext (baseMessages args) c")
  from assms s have "c' = c0"
    by (simp add: prepareRequest_def Let_def split: option.splits if_splits)
  moreover from s sanitizeForRequest_depth[of ext "baseMessages args" c] have "depthOf c0 = depthOf c"
    by simp
  ultimately show ?thesis by simp
qed

lemma actionKey_recursiveArgs: "actionKey (recursiveArgs args name') = actionKey args"
  by (simp add: recursiveArgs_def)

lemma afterTools_Recurse:
  assumes "afterTools ext args name' c text am ex = Recurse args' c'"
  shows "actionKey args' = actionKey args \<and> depth c' = depthOf c + 1"
  using assms
  by (auto simp: afterTools_def Let_def actionKey_recursiveArgs depth_updateToolCallContext
      split: if_splits)

lemma handleToolCalls_Recurse:
  assumes "handleToolCalls ext args name' c text am outcome = Recurse args' c'"
  shows "actionKey args' = actionKey args \<and> depth c' = depthOf c + 1"
proof (cases outcome)
  case (Executed rs)
  with assms have "afterTools ext args name' c text am rs = Recurse args' c'"
    by (simp add: handleToolCalls_def)
  then show ?thesis by (rule afterTools_Recurse)
next
  case (ToolsThrew e)
  with assms have "afterTools ext args name' c text am [] = Recurse args' c'"
    by (cases e) (simp_all add: handleToolCalls_def)
  then show ?thesis by (rule afterTools_Recurse)
qed

lemma handleResponse_Recurse:
  assumes "handleResponse ext args name' c response = Recurse args' c'"
  shows "actionKey args' = actionKey args \<and> depth c' = depthOf c + 1"
proof (cases "readResponse ext (stream args) response")
  case None
  with assms show ?thesis by (simp add: handleResponse_def)
next
  case (Some r)
  obtain answer toolCalls where r: "r = (answer, toolCalls)" by (cases r)
  from assms Some r obtain am outcome where
    "handleToolCalls ext args name' c answer am outcome = Recurse args' c'"
    by (auto simp: handleResponse_def Let_def split: option.splits if_splits)
  then show ?thesis by (rule handleToolCalls_Recurse)
qed

lemma inferRound_Recurse:
  assumes "inferRound ext cfg args c = (Recurse args' c', sent)"
  shows "actionKey args' = actionKey args \<and> depth c' = depthOf c + 1"
proof (cases "prepareRequest ext cfg args c")
  case (Inl f)
  with assms show ?thesis by (simp add: inferRound_def)
next
  case (Inr p)
  obtain name'' c'' msgs where p: "p = (name'', c'', msgs)" by (cases p)
  from Inr p have d: "depthOf c'' = depthOf c" by (simp add: prepareRequest_depth)
  show ?thesis
  proof (cases "createCompletion ext c'' msgs")
    case (Inl err)
    with assms Inr p show ?thesis by (simp add: inferRound_def)
  next
    case (Inr response)
    with assms \<open>prepareRequest ext cfg args c = Inr p\<close> p
    have "handleResponse ext args name'' c'' response = Recurse args' c'"
      by (simp add: inferRound_def)
    then have "actionKey args' = actionKey args \<and> depth c' = depthOf c'' + 1"
      by (rule handleResponse_Recurse)
    with d show ?thesis by simp
  qed
qed

text \<open>
  \<open>infer\<close>: message limit, depth guard, model lookup, routing, then rounds of the standard
  path. The second component lists the requests sent to the network, in order.
\<close>

function infer ::
  "'o Collaborators \<Rightarrow> InferArgs \<Rightarrow> ToolCallContext option
     \<Rightarrow> (failure + 'o InferResponse) \<times> Message list list" where
  "infer ext args toolCallContext =
     (if length (baseMessages args) > MAX_LLM_MESSAGES ext
      then (Inl (RateLimitExceededError
                   (MessageLimit (length (baseMessages args)) (MAX_LLM_MESSAGES ext)) None), [])
      else if depthExceeded ext args toolCallContext
      then (maxDepthResult ext args toolCallContext, [])
      else (case AI_MODEL_CONFIG ext (modelName args) of
              None \<Rightarrow> (Inl (OtherError ''Unknown model''), [])
            | Some modelConfig \<Rightarrow>
                if requiresNativeInference (mc_provider modelConfig)
                then inferGeminiNative ext args toolCallContext
                else (case inferRound ext modelConfig args toolCallContext of
                        (Done result, sent) \<Rightarrow> (result, sent)
                      | (Recurse args' newToolCallContext, sent) \<Rightarrow>
                          (case infer ext args' (Some newToolCallContext) of
                             (result, sent') \<Rightarrow> (result, sent @ sent')))))"
  by pat_completeness auto
termination infer
proof (relation "measure (\<lambda>(ext, args, c). getMaxToolCallingDepth ext (actionKey args) - depthOf c)", goal_cases)
  case 1
  then show ?case by simp
next
  case (2 ext args toolCallContext modelConfig x y args' newToolCallContext)
  then have "inferRound ext modelConfig args toolCallContext = (Recurse args' newToolCallContext, y)"
    by simp
  then have "actionKey args' = actionKey args \<and> depth newToolCallContext = depthOf toolCallContext + 1"
    by (rule inferRound_Recurse)
  with 2 show ?case by (simp add: depthExceeded_def depthOf_def)
qed

subsection \<open>A scripted environment\<close>

text \<open>
  Collaborators for the examples: at most two messages, depth limit two, three known
  models, a model that answers every request with one call of the tool \<open>read\<close>, and a tool
  executor that returns a result for every call.
\<close>

definition scripted :: "json Collaborators" where
  "scripted =
     \<lparr> MAX_LLM_MESSAGES = 2,
       getMaxToolCallingDepth = (\<lambda>k. 2),
       AI_MODEL_CONFIG = (\<lambda>n. if n = ''gpt'' then Some \<lparr>mc_provider = ''openai''\<rparr>
                               else if n = ''deepseek-chat'' then Some \<lparr>mc_provider = ''deepseek''\<rparr>
                               else if n = ''gemini'' then Some \<lparr>mc_provider = ''google-ai-studio''\<rparr>
                               else None),
       JSON_stringify = (\<lambda>v. ''{}''),
       JSON_parse = (\<lambda>s. if s = ''{}'' then Some (JObj []) else None),
       parseFloat = (\<lambda>s. None),
       toText = (\<lambda>v. []),
       synthIdForIndex = (\<lambda>n k. replicate (Suc n) CHR ''#''),
       stripTrailing = (\<lambda>s. s),
       collapseBlankLines = (\<lambda>s. s),
       prepareClient = (\<lambda>a. None),
       generateTemplateForSchema = (\<lambda>f. ''Reply in JSON.''),
       createCompletion = (\<lambda>c ms. Inr (ChatCompletion
                             (Some (Some ''reading'',
                                    Some [\<lparr>tc_id = ''c1'', tc_name = ''read'', tc_arguments = ''{}''\<rparr>])))),
       onAssistantMessage = (\<lambda>m. None),
       executeToolCalls = (\<lambda>c tcs. Executed (map (\<lambda>tc. \<lparr>tr_id = tc_id tc, tr_name = tc_name tc,
                                                         tr_result = Some (JStr ''ok'')\<rparr>) tcs)),
       parseContentForSchema = (\<lambda>f s. None),
       safeParse = (\<lambda>v. Some v),
       geminiApiKey = True,
       geminiFetch = (\<lambda>c ms. Inr \<lparr>g_ok = True, g_status = 200, g_retryAfter = None,
                                   g_errorText = [], g_text = Some ''{}''\<rparr>),
       geminiCallId = (\<lambda>c. ''gemini_1'') \<rparr>"

definition userMessage :: "string \<Rightarrow> Message" where
  "userMessage t = \<lparr>role = User, content = Text t, tool_calls = None, name = None, tool_call_id = None\<rparr>"

definition plainArgs :: "string \<Rightarrow> Message list \<Rightarrow> InferArgs" where
  "plainArgs model ms =
     \<lparr> actionKey = ''conversationalResponse'', baseMessages = ms, schema = False, schemaName = None,
       format = None, modelName = model, stream = False, tools = Some [''read''], detector = None \<rparr>"

definition structuredArgs :: "string \<Rightarrow> Message list \<Rightarrow> InferArgs" where
  "structuredArgs model ms = (plainArgs model ms) \<lparr> schema := True, schemaName := Some ''blueprint'' \<rparr>"

definition formattedArgs :: "string \<Rightarrow> Message list \<Rightarrow> InferArgs" where
  "formattedArgs model ms = (structuredArgs model ms) \<lparr> format := Some ''markdown'' \<rparr>"

definition contextAtDepth :: "nat \<Rightarrow> ToolCallContext" where
  "contextAtDepth d = \<lparr> messages = [], depth = d, completionSignal = None, warningInjected = None \<rparr>"

section \<open>Completion signal\<close>

lemma signalOf_update_keeps:
  "signalOf c = Some s \<Longrightarrow>
   signalOf (Some (updateToolCallContext stringify c am ex det)) = Some s"
  by (cases c; cases det) (simp_all add: signalOf_def updateToolCallContext_def Let_def)

lemma signalOf_update_first:
  "signalOf c = None \<Longrightarrow>
   signalOf (Some (updateToolCallContext stringify c am ex (Some d))) = detectCompletion d ex"
  by (cases c) (simp_all add: signalOf_def updateToolCallContext_def Let_def)

lemma signalOf_updateRounds_keeps:
  "signalOf c = Some s \<Longrightarrow> signalOf (updateRounds stringify c rounds) = Some s"
proof (induction rounds arbitrary: c)
  case Nil
  then show ?case by simp
next
  case (Cons r rounds)
  obtain am ex det where r: "r = (am, ex, det)" by (cases r) auto
  from Cons.prems have "signalOf (Some (updateToolCallContext stringify c am ex det)) = Some s"
    by (rule signalOf_update_keeps)
  then show ?case unfolding r by (simp add: Cons.IH)
qed

lemma updateRounds_append:
  "updateRounds stringify c (xs @ ys) = updateRounds stringify (updateRounds stringify c xs) ys"
  by (induction xs arbitrary: c) auto

text \<open>
  C7. The completion signal is set at most once per call chain. While the context carries
  no signal, an update with a detector stores what the detector reports for the executed
  results; and as soon as the context reached after some updates carries a signal, every
  further sequence of updates, whatever their results and detectors, leaves that same signal
  value (flag, tool name and summary) in place.
\<close>

theorem completionSignal_set_once:
  "(signalOf c = None \<longrightarrow>
      signalOf (Some (updateToolCallContext stringify c am ex (Some d))) = detectCompletion d ex)
   \<and> (signalOf (updateRounds stringify c before) = Some s \<longrightarrow>
      signalOf (updateRounds stringify c (before @ later)) = Some s)"
proof (intro conjI impI)
  assume "signalOf c = None"
  then show "signalOf (Some (updateToolCallContext stringify c am ex (Some d))) = detectCompletion d ex"
    by (rule signalOf_update_first)
next
  assume "signalOf (updateRounds stringify c before) = Some s"
  then show "signalOf (updateRounds stringify c (before @ later)) = Some s"
    unfolding updateRounds_append by (rule signalOf_updateRounds_keeps)
qed

theorem completionSignal_set_once_witness:
  "signalOf None = None
   \<and> signalOf (Some (updateToolCallContext (\<lambda>v. ''{}'') None
         \<lparr>role = Assistant, content = Text ''ok'', tool_calls = None, name = None, tool_call_id = None\<rparr>
         [\<lparr>tr_id = ''c1'', tr_name = ''finish'', tr_result = None\<rparr>]
         (Some \<lparr>detectCompletion = (\<lambda>rs. Some \<lparr>signaled = True, toolName = ''finish'', summary = None\<rparr>),
                isCompletionTool = (\<lambda>n. n = ''finish'')\<rparr>)))
       = Some \<lparr>signaled = True, toolName = ''finish'', summary = None\<rparr>
   \<and> signalOf (updateRounds (\<lambda>v. ''{}'') None
         ([(\<lparr>role = Assistant, content = Text ''ok'', tool_calls = None, name = None, tool_call_id = None\<rparr>,
            [\<lparr>tr_id = ''c1'', tr_name = ''finish'', tr_result = None\<rparr>],
            Some \<lparr>detectCompletion = (\<lambda>rs. Some \<lparr>signaled = True, toolName = ''finish'', summary = None\<rparr>),
                  isCompletionTool = (\<lambda>n. n = ''finish'')\<rparr>)]
          @ [(\<lparr>role = Assistant, content = Text ''again'', tool_calls = None, name = None, tool_call_id = None\<rparr>,
            [\<lparr>tr_id = ''c2'', tr_name = ''finish'', tr_result = None\<rparr>],
            Some \<lparr>detectCompletion = (\<lambda>rs. Some \<lparr>signaled = True, toolName = ''second'', summary = Some ''late''\<rparr>),
                  isCompletionTool = (\<lambda>n. True)\<rparr>)]))
       = Some \<lparr>signaled = True, toolName = ''finish'', summary = None\<rparr>"
  using completionSignal_set_once
    [of None "\<lambda>v. ''{}''"
        "\<lparr>role = Assistant, content = Text ''ok'', tool_calls = None, name = None, tool_call_id = None\<rparr>"
        "[\<lparr>tr_id = ''c1'', tr_name = ''finish'', tr_result = None\<rparr>]"
        "\<lparr>detectCompletion = (\<lambda>rs. Some \<lparr>signaled = True, toolName = ''finish'', summary = None\<rparr>),
          isCompletionTool = (\<lambda>n. n = ''finish'')\<rparr>"
        "[(\<lparr>role = Assistant, content = Text ''ok'', tool_calls = None, name = None, tool_call_id = None\<rparr>,
            [\<lparr>tr_id = ''c1'', tr_name = ''finish'', tr_result = None\<rparr>],
            Some \<lparr>detectCompletion = (\<lambda>rs. Some \<lparr>signaled = True, toolName = ''finish'', summary = None\<rparr>),
                  isCompletionTool = (\<lambda>n. n = ''finish'')\<rparr>)]"
        "\<lparr>signaled = True, toolName = ''finish'', summary = None\<rparr>"
        "[(\<lparr>role = Assistant, content = Text ''again'', tool_calls = None, name = None, tool_call_id = None\<rparr>,
            [\<lparr>tr_id = ''c2'', tr_name = ''finish'', tr_result = None\<rparr>],
            Some \<lparr>detectCompletion = (\<lambda>rs. Some \<lparr>signaled = True, toolName = ''second'', summary = Some ''late''\<rparr>),
                  isCompletionTool = (\<lambda>n. True)\<rparr>)]"]
  by (simp add: signalOf_def updateToolCallContext_def)

section \<open>Accumulator: fragments with one stable id\<close>

lemma find_map_comp: "find P (map f xs) = map_option f (find (P \<circ> f) xs)"
  by (induction xs) auto

lemma upt_one_Suc_Suc: "[Suc 0..<Suc (Suc m)] = Suc 0 # map Suc [Suc 0..<Suc m]"
  by (simp add: map_Suc_upt upt_conv_Cons del: upt_Suc)

lemma foldl_argStep_complete: "isComplete parses a \<Longrightarrow> foldl (argStep parses) a cs = a"
proof (induction cs)
  case Nil
  then show ?case by simp
next
  case (Cons c cs)
  have "argStep parses a c = a" using Cons.prems by (simp add: argStep_def)
  then show ?case using Cons by simp
qed

lemma not_isComplete_Nil: "\<not> isComplete parses []"
  by (simp add: isComplete_def)

lemma foldl_argStep_spec:
  "foldl (argStep parses) a cs =
     (if isComplete parses a then a
      else (case find (\<lambda>n. isComplete parses (a @ concat (take n cs))) [1..<Suc (length cs)] of
              None \<Rightarrow> a @ concat cs
            | Some n \<Rightarrow> a @ concat (take n cs)))"
proof (induction cs arbitrary: a)
  case Nil
  then show ?case by simp
next
  case (Cons c cs)
  show ?case
  proof (cases "isComplete parses a")
    case True
    then show ?thesis using foldl_argStep_complete[of parses a "c # cs"] by simp
  next
    case False
    have step: "foldl (argStep parses) a (c # cs) = foldl (argStep parses) (a @ c) cs"
      using False by (simp add: argStep_def)
    show ?thesis
    proof (cases "isComplete parses (a @ c)")
      case True
      then show ?thesis using False unfolding step
        by (simp add: foldl_argStep_complete upt_one_Suc_Suc del: upt_Suc)
    next
      case nc: False
      show ?thesis using False nc unfolding step Cons.IH
        by (simp add: upt_one_Suc_Suc find_map_comp comp_def option.case_eq_if option.map_sel del: upt_Suc)
    qed
  qed
qed

lemma foldl_argStep_upToComplete:
  "foldl (argStep parses) [] cs = argumentsUpToComplete parses cs"
  by (simp add: foldl_argStep_spec argumentsUpToComplete_def not_isComplete_Nil del: upt_Suc cong: option.case_cong)

lemma singleEntry_lookup:
  "singleEntry i a acc \<Longrightarrow> idFromDelta d = Some i \<Longrightarrow> lookupEntry acc d = Some 0"
  by (clarsimp simp: singleEntry_def lookupEntry_def)

lemma singleEntry_updateId:
  "singleEntry i a acc \<Longrightarrow> idFromDelta d = Some i \<Longrightarrow> updateId acc 0 d = acc"
  by (clarsimp simp: singleEntry_def updateId_def)

lemma singleEntry_registerIndex:
  assumes "singleEntry i a acc"
  shows "singleEntry i a (registerIndex acc 0 d)"
proof -
  from assms obtain e where e: "entries acc = [e]" "e_id e = i" "e_arguments e = a" "byId acc = [(i, 0)]"
    and ix: "(byIndex acc = [] \<and> e_index e = None) \<or> (\<exists>k. byIndex acc = [(k, 0)] \<and> e_index e = Some k)"
    unfolding singleEntry_def by blast
  show ?thesis
  proof (cases "d_index d")
    case None
    then show ?thesis using assms by (simp add: registerIndex_def)
  next
    case (Some k)
    show ?thesis
    proof (cases "e_index e")
      case None
      with ix have "byIndex acc = []" by auto
      then show ?thesis using e None Some
        by (simp add: registerIndex_def singleEntry_def)
    next
      case (Some k')
      then show ?thesis using assms e \<open>d_index d = Some k\<close>
        by (simp add: registerIndex_def)
    qed
  qed
qed

lemma singleEntry_updateName:
  assumes "singleEntry i a acc"
  shows "singleEntry i a (updateName acc 0 d)"
proof -
  from assms obtain e where e: "entries acc = [e]" "e_id e = i" "e_arguments e = a" "byId acc = [(i, 0)]"
    and ix: "(byIndex acc = [] \<and> e_index e = None) \<or> (\<exists>k. byIndex acc = [(k, 0)] \<and> e_index e = Some k)"
    unfolding singleEntry_def by blast
  show ?thesis
  proof (cases "d_name d")
    case None
    then show ?thesis using assms by (simp add: updateName_def)
  next
    case (Some n)
    show ?thesis using e ix Some assms
      by (cases "n = []") (simp_all add: updateName_def singleEntry_def)
  qed
qed

lemma singleEntry_appendArguments:
  assumes "singleEntry i a acc"
  shows "singleEntry i (argOpt parses a (d_arguments d)) (appendArguments parses acc 0 d)"
proof -
  from assms obtain e where e: "entries acc = [e]" "e_id e = i" "e_arguments e = a" "byId acc = [(i, 0)]"
    and ix: "(byIndex acc = [] \<and> e_index e = None) \<or> (\<exists>k. byIndex acc = [(k, 0)] \<and> e_index e = Some k)"
    unfolding singleEntry_def by blast
  show ?thesis
  proof (cases "d_arguments d")
    case None
    then show ?thesis using assms by (simp add: appendArguments_def argOpt_def)
  next
    case (Some ch)
    show ?thesis using e ix Some assms
      by (cases "isComplete parses a")
         (simp_all add: appendArguments_def argOpt_def argStep_def singleEntry_def Let_def)
  qed
qed

lemma accumulate_same_id:
  assumes "singleEntry i a acc" and "idFromDelta d = Some i"
  shows "singleEntry i (argOpt parses a (d_arguments d)) (accumulateToolCallDelta synth parses acc d)"
proof -
  have "accumulateToolCallDelta synth parses acc d =
          appendArguments parses (updateName (registerIndex acc 0 d) 0 d) 0 d"
    using assms by (simp add: accumulateToolCallDelta_def singleEntry_lookup singleEntry_updateId)
  then show ?thesis
    using assms(1) by (simp add: singleEntry_appendArguments singleEntry_updateName singleEntry_registerIndex)
qed

lemma createEntry_single:
  assumes "idFromDelta d = Some i"
  shows "snd (createEntry synth emptyAccumulator d) = 0
         \<and> singleEntry i [] (fst (createEntry synth emptyAccumulator d))"
  using assms
  by (cases "d_index d") (simp_all add: createEntry_def emptyAccumulator_def singleEntry_def Let_def)

lemma accumulate_first:
  assumes "idFromDelta d = Some i"
  shows "singleEntry i (argOpt parses [] (d_arguments d)) (accumulateToolCallDelta synth parses emptyAccumulator d)"
proof -
  obtain acc1 r where c: "createEntry synth emptyAccumulator d = (acc1, r)" by (cases "createEntry synth emptyAccumulator d")
  with createEntry_single[OF assms, of synth] have r: "r = 0" and s: "singleEntry i [] acc1" by simp_all
  have l: "lookupEntry emptyAccumulator d = None"
    by (simp add: lookupEntry_def emptyAccumulator_def split: option.splits)
  have "accumulateToolCallDelta synth parses emptyAccumulator d =
          appendArguments parses (updateName (registerIndex acc1 0 d) 0 d) 0 d"
    using c r l s assms by (simp add: accumulateToolCallDelta_def singleEntry_updateId)
  then show ?thesis
    using s by (simp add: singleEntry_appendArguments singleEntry_updateName singleEntry_registerIndex)
qed

lemma accumulate_fold_same_id:
  assumes "singleEntry i a acc" and "\<forall>d\<in>set ds. idFromDelta d = Some i"
  shows "singleEntry i (foldl (argOpt parses) a (map d_arguments ds))
           (foldl (accumulateToolCallDelta synth parses) acc ds)"
  using assms
proof (induction ds arbitrary: a acc)
  case Nil
  then show ?case by simp
next
  case (Cons d ds)
  from Cons.prems have "singleEntry i (argOpt parses a (d_arguments d)) (accumulateToolCallDelta synth parses acc d)"
    by (simp add: accumulate_same_id)
  with Cons show ?case by simp
qed

lemma foldl_argOpt:
  "foldl (argOpt parses) a (map d_arguments ds) = foldl (argStep parses) a (argumentDeltas ds)"
  by (induction ds arbitrary: a) (auto simp: argumentDeltas_def List.map_filter_simps argOpt_def split: option.splits)

lemma assemble_single:
  assumes "singleEntry i a acc"
  shows "\<exists>nm. assembleToolCalls acc = [\<lparr>tc_id = i, tc_name = nm, tc_arguments = a\<rparr>]"
  using assms by (auto simp: singleEntry_def assembleToolCalls_def toToolCall_def)

lemma stable_id_invariant:
  assumes "ds \<noteq> []" and "i \<noteq> []" and "\<forall>d\<in>set ds. d_id d = Some i"
  shows "singleEntry i (argumentsUpToComplete parses (argumentDeltas ds)) (accumulateAll synth parses ds)"
proof -
  from assms obtain d rest where ds: "ds = d # rest" by (cases ds) auto
  have ids: "\<forall>d\<in>set ds. idFromDelta d = Some i"
    using assms by (simp add: idFromDelta_def)
  have "singleEntry i (argOpt parses [] (d_arguments d)) (accumulateToolCallDelta synth parses emptyAccumulator d)"
    using ids ds by (simp add: accumulate_first)
  then have "singleEntry i (foldl (argOpt parses) (argOpt parses [] (d_arguments d)) (map d_arguments rest))
           (foldl (accumulateToolCallDelta synth parses) (accumulateToolCallDelta synth parses emptyAccumulator d) rest)"
    using ids ds by (intro accumulate_fold_same_id) simp_all
  then have "singleEntry i (foldl (argOpt parses) [] (map d_arguments ds)) (accumulateAll synth parses ds)"
    by (simp add: ds accumulateAll_def)
  then show ?thesis
    unfolding foldl_argOpt foldl_argStep_upToComplete .
qed

lemma stable_id_later_discarded:
  assumes "singleEntry i a (accumulateAll synth parses ds)" and "isComplete parses a"
    and "\<forall>d\<in>set later. idFromDelta d = Some i"
  shows "singleEntry i a (accumulateAll synth parses (ds @ later))"
proof -
  have "singleEntry i (foldl (argOpt parses) a (map d_arguments later))
          (foldl (accumulateToolCallDelta synth parses) (accumulateAll synth parses ds) later)"
    using assms(1,3) by (rule accumulate_fold_same_id)
  then show ?thesis
    using assms(2) by (simp add: foldl_argOpt foldl_argStep_complete accumulateAll_def)
qed

text \<open>
  C1. For a non-empty stream of fragments that all carry the same (non-empty) id, the
  accumulator holds exactly one tool-call request for that id, and its arguments string is
  the in-order concatenation of the argument deltas up to and including the first delta
  after which the accumulated string parses as complete JSON (all of them when it never
  does). Once the string is complete, any further fragments of that call leave the single
  request's arguments unchanged: their argument deltas are discarded.
\<close>

theorem stable_id_single_request:
  assumes "ds \<noteq> []" and "i \<noteq> []" and "\<forall>d\<in>set ds. d_id d = Some i"
  shows "(\<exists>nm. assembleToolCalls (accumulateAll synth parses ds) =
            [\<lparr>tc_id = i, tc_name = nm,
              tc_arguments = argumentsUpToComplete parses (argumentDeltas ds)\<rparr>])
       \<and> (isComplete parses (argumentsUpToComplete parses (argumentDeltas ds))
            \<and> (\<forall>d\<in>set later. d_id d = Some i) \<longrightarrow>
          (\<exists>nm. assembleToolCalls (accumulateAll synth parses (ds @ later)) =
            [\<lparr>tc_id = i, tc_name = nm,
              tc_arguments = argumentsUpToComplete parses (argumentDeltas ds)\<rparr>]))"
proof (intro conjI impI)
  have inv: "singleEntry i (argumentsUpToComplete parses (argumentDeltas ds)) (accumulateAll synth parses ds)"
    using assms by (rule stable_id_invariant)
  then show "\<exists>nm. assembleToolCalls (accumulateAll synth parses ds) =
            [\<lparr>tc_id = i, tc_name = nm,
              tc_arguments = argumentsUpToComplete parses (argumentDeltas ds)\<rparr>]"
    by (rule assemble_single)
  assume h: "isComplete parses (argumentsUpToComplete parses (argumentDeltas ds))
            \<and> (\<forall>d\<in>set later. d_id d = Some i)"
  then have "\<forall>d\<in>set later. idFromDelta d = Some i"
    using assms(2) by (simp add: idFromDelta_def)
  with inv h have "singleEntry i (argumentsUpToComplete parses (argumentDeltas ds))
                     (accumulateAll synth parses (ds @ later))"
    by (intro stable_id_later_discarded) simp_all
  then show "\<exists>nm. assembleToolCalls (accumulateAll synth parses (ds @ later)) =
            [\<lparr>tc_id = i, tc_name = nm,
              tc_arguments = argumentsUpToComplete parses (argumentDeltas ds)\<rparr>]"
    by (rule assemble_single)
qed

theorem stable_id_single_request_witness:
  "\<exists>nm. assembleToolCalls (accumulateAll (\<lambda>n k. ''tool'') (\<lambda>s. s = ''[1,2]'')
         ([\<lparr>d_index = Some 0, d_id = Some ''abc'', d_name = Some ''search'', d_arguments = None\<rparr>,
           \<lparr>d_index = Some 1, d_id = Some ''abc'', d_name = None, d_arguments = Some ''[1,''\<rparr>,
           \<lparr>d_index = None, d_id = Some ''abc'', d_name = None, d_arguments = Some ''2]''\<rparr>]
          @ [\<lparr>d_index = Some 0, d_id = Some ''abc'', d_name = None, d_arguments = Some ''junk''\<rparr>]))
        = [\<lparr>tc_id = ''abc'', tc_name = nm, tc_arguments = ''[1,2]''\<rparr>]"
proof -
  have a: "argumentsUpToComplete (\<lambda>s. s = ''[1,2]'')
             (argumentDeltas
               [\<lparr>d_index = Some 0, d_id = Some ''abc'', d_name = Some ''search'', d_arguments = None\<rparr>,
                \<lparr>d_index = Some 1, d_id = Some ''abc'', d_name = None, d_arguments = Some ''[1,''\<rparr>,
                \<lparr>d_index = None, d_id = Some ''abc'', d_name = None, d_arguments = Some ''2]''\<rparr>])
           = ''[1,2]''"
    by code_simp
  show ?thesis
    using stable_id_single_request
      [where ds = "[\<lparr>d_index = Some 0, d_id = Some ''abc'', d_name = Some ''search'', d_arguments = None\<rparr>,
            \<lparr>d_index = Some 1, d_id = Some ''abc'', d_name = None, d_arguments = Some ''[1,''\<rparr>,
            \<lparr>d_index = None, d_id = Some ''abc'', d_name = None, d_arguments = Some ''2]''\<rparr>]"
          and i = "''abc''" and parses = "\<lambda>s. s = ''[1,2]''"
          and later = "[\<lparr>d_index = Some 0, d_id = Some ''abc'', d_name = None, d_arguments = Some ''junk''\<rparr>]"
          and synth = "\<lambda>n k. ''tool''"]
    unfolding a by (simp add: isComplete_def)
qed

section \<open>Accumulator: final assembly\<close>

lemma update_absent: "k \<notin> fst ` set al \<Longrightarrow> AList.update k v al = al @ [(k, v)]"
  by (induction al) auto

lemma map_of_None_absent: "map_of al k = None \<Longrightarrow> k \<notin> fst ` set al"
  by (simp add: map_of_eq_None_iff)

lemma list_all_update:
  "list_all P al \<Longrightarrow> P (k, v) \<Longrightarrow> list_all P (AList.update k v al)"
  by (induction al) auto

lemma list_all_delete:
  "list_all P al \<Longrightarrow> list_all P (AList.delete k al)"
  by (induction al) auto

lemma map_update_same:
  "f y = f (xs ! r) \<Longrightarrow> map f (xs[r := y]) = map f xs"
  by (induction xs arbitrary: r) (auto split: nat.splits)

lemma indexedInv_lookup:
  assumes "indexedInv acc" and "lookupEntry acc d = Some r"
  shows "r < length (entries acc)"
proof -
  have a: "map_of (byId acc) i = Some r \<Longrightarrow> r < length (entries acc)" for i
  proof -
    assume "map_of (byId acc) i = Some r"
    then have "(i, r) \<in> set (byId acc)" by (rule map_of_SomeD)
    with assms(1) show ?thesis by (auto simp: indexedInv_def list_all_iff)
  qed
  have b: "map_of (byIndex acc) k = Some r \<Longrightarrow> r < length (entries acc)" for k
  proof -
    assume "map_of (byIndex acc) k = Some r"
    then have "(k, r) \<in> set (byIndex acc)" by (rule map_of_SomeD)
    then have "r \<in> set (map snd (byIndex acc))" by force
    with assms(1) show ?thesis by (simp add: indexedInv_def)
  qed
  from assms(2) show ?thesis
    by (auto simp: lookupEntry_def split: option.splits dest: a b)
qed

lemma indexedInv_create:
  assumes "indexedInv acc" and "lookupEntry acc d = None" and "d_index d = Some k"
  shows "indexedInv (fst (createEntry synth acc d)) \<and> snd (createEntry synth acc d) < length (entries (fst (createEntry synth acc d)))"
proof -
  from assms(2,3) have "map_of (byIndex acc) k = None"
    by (auto simp: lookupEntry_def split: option.splits)
  then have k: "k \<notin> fst ` set (byIndex acc)" by (rule map_of_None_absent)
  have l: "list_all (\<lambda>p. snd p < Suc (length (entries acc))) (byId acc)"
    using assms(1) by (auto simp: indexedInv_def list_all_iff)
  show ?thesis
    using assms(1,3) k l
    by (simp add: createEntry_def Let_def indexedInv_def update_absent list_all_update)
qed

lemma indexedInv_updateId:
  assumes "indexedInv acc" and "r < length (entries acc)"
  shows "indexedInv (updateId acc r d)"
  using assms
  by (auto simp: updateId_def Let_def indexedInv_def map_update_same list_all_update list_all_delete
      split: option.splits)

lemma indexedInv_registerIndex:
  assumes "indexedInv acc" and "r < length (entries acc)"
  shows "registerIndex acc r d = acc"
proof -
  have "length (entries acc) = length (byIndex acc)"
    using assms(1) by (metis indexedInv_def length_map)
  then have "e_index (entries acc ! r) = Some (fst (byIndex acc ! r))"
    using assms by (metis indexedInv_def nth_map)
  then show ?thesis by (simp add: registerIndex_def split: option.splits)
qed

lemma indexedInv_updateName:
  assumes "indexedInv acc"
  shows "indexedInv (updateName acc r d)"
  using assms
  by (auto simp: updateName_def indexedInv_def map_update_same split: option.splits)

lemma indexedInv_appendArguments:
  assumes "indexedInv acc"
  shows "indexedInv (appendArguments parses acc r d)"
  using assms
  by (auto simp: appendArguments_def Let_def indexedInv_def map_update_same split: option.splits)

lemma indexedInv_step:
  assumes "indexedInv acc" and "d_index d = Some k"
  shows "indexedInv (accumulateToolCallDelta synth parses acc d)"
proof -
  obtain acc1 r where c: "(case lookupEntry acc d of Some r \<Rightarrow> (acc, r) | None \<Rightarrow> createEntry synth acc d) = (acc1, r)"
    by (cases "case lookupEntry acc d of Some r \<Rightarrow> (acc, r) | None \<Rightarrow> createEntry synth acc d")
  have i1: "indexedInv acc1 \<and> r < length (entries acc1)"
  proof (cases "lookupEntry acc d")
    case None
    with c indexedInv_create[OF assms(1) None assms(2), of synth] show ?thesis by simp
  next
    case (Some r')
    with c indexedInv_lookup[OF assms(1) Some] assms(1) show ?thesis by simp
  qed
  have len: "length (entries (updateId acc1 r d)) = length (entries acc1)"
    by (simp add: updateId_def Let_def split: option.splits)
  have "indexedInv (updateId acc1 r d)" using i1 by (simp add: indexedInv_updateId)
  moreover have "registerIndex (updateId acc1 r d) r d = updateId acc1 r d"
    using i1 len by (intro indexedInv_registerIndex) (simp_all add: indexedInv_updateId)
  ultimately show ?thesis
    unfolding accumulateToolCallDelta_def c
    by (simp add: indexedInv_updateName indexedInv_appendArguments)
qed

lemma indexedInv_empty: "indexedInv emptyAccumulator"
  by (simp add: indexedInv_def emptyAccumulator_def)

lemma indexedInv_fold:
  assumes "indexedInv acc" and "\<forall>d\<in>set ds. d_index d \<noteq> None"
  shows "indexedInv (foldl (accumulateToolCallDelta synth parses) acc ds)"
  using assms
proof (induction ds arbitrary: acc)
  case Nil
  then show ?case by simp
next
  case (Cons d ds)
  then obtain k where "d_index d = Some k" by auto
  with Cons.prems have "indexedInv (accumulateToolCallDelta synth parses acc d)"
    by (simp add: indexedInv_step)
  with Cons show ?case by simp
qed

lemma indexedInv_values:
  assumes "indexedInv acc"
  shows "map (\<lambda>(k, r). entries acc ! r) (byIndex acc) = entries acc"
proof -
  have "map (\<lambda>(k, r). entries acc ! r) (byIndex acc) = map ((!) (entries acc)) (map snd (byIndex acc))"
    by (simp add: case_prod_unfold comp_def)
  also have "\<dots> = entries acc" using assms by (simp add: indexedInv_def map_nth)
  finally show ?thesis .
qed

lemma indexedInv_assemble:
  assumes "indexedInv acc"
  shows "assembleToolCalls acc = map toToolCall (sort_key indexKey (entries acc))"
proof (cases "byIndex acc = []")
  case True
  with assms have "entries acc = []" by (simp add: indexedInv_def)
  with assms have "byId acc = []" by (cases "byId acc") (simp_all add: indexedInv_def)
  with True \<open>entries acc = []\<close> show ?thesis by (simp add: assembleToolCalls_def)
next
  case False
  then show ?thesis using indexedInv_values[OF assms] by (simp add: assembleToolCalls_def)
qed

lemma indexedInv_distinct:
  assumes "indexedInv acc"
  shows "distinct (map indexKey (entries acc)) \<and> list_all (\<lambda>e. e_index e \<noteq> None) (entries acc)"
proof -
  have m: "map e_index (entries acc) = map (\<lambda>p. Some (fst p)) (byIndex acc)"
    using assms by (simp add: indexedInv_def)
  have "map indexKey (entries acc) = map (\<lambda>x. case x of Some i \<Rightarrow> i | None \<Rightarrow> 0) (map e_index (entries acc))"
    by (simp add: indexKey_def comp_def)
  also have "\<dots> = map fst (byIndex acc)" unfolding m by (simp add: comp_def)
  finally have "distinct (map indexKey (entries acc))" using assms by (simp add: indexedInv_def)
  moreover have "list_all (\<lambda>x. x \<noteq> None) (map e_index (entries acc))"
    unfolding m by (simp add: list_all_iff)
  ultimately show ?thesis by (simp add: list_all_iff)
qed

lemma zip_upt_lookup:
  assumes "map_of (zip ks [0..<length ks]) i = Some r"
  shows "r < length ks \<and> ks ! r = i"
proof -
  from assms have "(i, r) \<in> set (zip ks [0..<length ks])" by (rule map_of_SomeD)
  then obtain j where "ks ! j = i" "[0..<length ks] ! j = r" "j < length ks"
    by (auto simp: in_set_zip)
  then show ?thesis by simp
qed

lemma zip_upt_absent:
  assumes "map_of (zip ks [0..<length ks]) i = None"
  shows "i \<notin> set ks"
proof -
  from assms have "i \<notin> fst ` set (zip ks [0..<length ks])" by (rule map_of_None_absent)
  moreover have "map fst (zip ks [0..<length ks]) = ks" by simp
  ultimately show ?thesis by (metis set_map)
qed

lemma knownId_mono: "knownId synth S n i \<Longrightarrow> knownId synth S (Suc n) i"
  by (auto simp: knownId_def intro: less_SucI)

lemma orderedInv_modify:
  assumes "orderedInv synth S acc"
    and "e_id e' = e_id (entries acc ! r)" and "e_order e' = e_order (entries acc ! r)"
  shows "orderedInv synth S (acc \<lparr> entries := (entries acc)[r := e'] \<rparr>)"
  using assms by (simp add: orderedInv_def map_update_same)

lemma orderedInv_updateName:
  "orderedInv synth S acc \<Longrightarrow> orderedInv synth S (updateName acc r d)"
  by (auto simp: updateName_def intro: orderedInv_modify split: option.splits)

lemma orderedInv_appendArguments:
  "orderedInv synth S acc \<Longrightarrow> orderedInv synth S (appendArguments parses acc r d)"
  by (auto simp: appendArguments_def Let_def intro: orderedInv_modify split: option.splits)

lemma registerIndex_None: "d_index d = None \<Longrightarrow> registerIndex acc r d = acc"
  by (simp add: registerIndex_def)

lemma updateId_same:
  "idFromDelta d = None \<or> idFromDelta d = Some (e_id (entries acc ! r)) \<Longrightarrow> updateId acc r d = acc"
  by (auto simp: updateId_def)

lemma orderedInv_append:
  assumes "orderedInv synth S acc" and "p \<notin> set (map e_id (entries acc))"
    and "knownId synth S (Suc (length (entries acc))) p"
  shows "orderedInv synth S
           (acc \<lparr> entries := entries acc @ [\<lparr> e_id = p, e_name = [], e_arguments = [],
                                             e_index = None, e_order = orderCounter acc \<rparr>],
                  orderCounter := orderCounter acc + 1,
                  byIndex := byIndex acc,
                  byId := AList.update p (length (entries acc)) (byId acc) \<rparr>)"
proof -
  have "p \<notin> fst ` set (byId acc)"
  proof -
    have "map fst (zip (map e_id (entries acc)) [0..<length (entries acc)]) = map e_id (entries acc)"
      by simp
    then have "fst ` set (byId acc) = set (map e_id (entries acc))"
      using assms(1) by (metis orderedInv_def set_map)
    with assms(2) show ?thesis by simp
  qed
  then have u: "AList.update p (length (entries acc)) (byId acc) = byId acc @ [(p, length (entries acc))]"
    by (rule update_absent)
  have k: "list_all (knownId synth S (Suc (length (entries acc)))) (map e_id (entries acc))"
    using assms(1) by (auto simp: orderedInv_def list_all_iff intro: knownId_mono)
  show ?thesis
    using assms k unfolding u by (simp add: orderedInv_def)
qed

lemma orderedInv_step:
  assumes inv: "orderedInv synth S acc" and noidx: "d_index d = None"
    and ids: "idFromDelta d = None \<or> (\<exists>i\<in>S. idFromDelta d = Some i)"
    and fresh1: "\<forall>n k. synth n k \<notin> S"
    and fresh2: "\<forall>n k n' k'. synth n k = synth n' k' \<longrightarrow> n = n'"
  shows "orderedInv synth S (accumulateToolCallDelta synth parses acc d)"
proof -
  let ?n = "length (entries acc)"
  have byId: "byId acc = zip (map e_id (entries acc)) [0..<length (map e_id (entries acc))]"
    using inv by (simp add: orderedInv_def)
  have "\<exists>acc1 r. (case lookupEntry acc d of Some r \<Rightarrow> (acc, r) | None \<Rightarrow> createEntry synth acc d) = (acc1, r)
          \<and> orderedInv synth S acc1
          \<and> (idFromDelta d = None \<or> idFromDelta d = Some (e_id (entries acc1 ! r)))"
  proof (cases "lookupEntry acc d")
    case (Some r)
    then obtain i where i: "idFromDelta d = Some i" "map_of (byId acc) i = Some r"
      using noidx by (auto simp: lookupEntry_def split: option.splits)
    then have "map_of (zip (map e_id (entries acc)) [0..<length (map e_id (entries acc))]) i = Some r"
      using byId by simp
    then have "r < length (map e_id (entries acc)) \<and> map e_id (entries acc) ! r = i"
      by (rule zip_upt_lookup)
    then have "e_id (entries acc ! r) = i" by (auto simp: nth_map)
    with Some i inv show ?thesis by simp
  next
    case None
    show ?thesis
    proof (cases "idFromDelta d")
      case (Some i)
      with None have "map_of (byId acc) i = None"
        by (auto simp: lookupEntry_def split: option.splits)
      then have "map_of (zip (map e_id (entries acc)) [0..<length (map e_id (entries acc))]) i = None"
        using byId by simp
      then have a: "i \<notin> set (map e_id (entries acc))" by (rule zip_upt_absent)
      from Some ids have "i \<in> S" by auto
      then have k: "knownId synth S (Suc ?n) i" by (simp add: knownId_def)
      have c: "createEntry synth acc d =
               (acc \<lparr> entries := entries acc @ [\<lparr> e_id = i, e_name = [], e_arguments = [],
                                             e_index = None, e_order = orderCounter acc \<rparr>],
                  orderCounter := orderCounter acc + 1,
                  byIndex := byIndex acc,
                  byId := AList.update i ?n (byId acc) \<rparr>, ?n)"
        using Some noidx by (simp add: createEntry_def Let_def)
      show ?thesis
        using None Some orderedInv_append[OF inv a k] unfolding c by simp
    next
      case nid: None
      let ?p = "synth (orderCounter acc) (int (length (byId acc)))"
      have oc: "orderCounter acc = ?n" using inv by (simp add: orderedInv_def)
      have a: "?p \<notin> set (map e_id (entries acc))"
      proof
        assume "?p \<in> set (map e_id (entries acc))"
        moreover have "list_all (knownId synth S ?n) (map e_id (entries acc))"
          using inv by (simp add: orderedInv_def)
        ultimately have "knownId synth S ?n ?p" by (auto simp: list_all_iff)
        then consider "?p \<in> S" | m k where "m < ?n" "?p = synth m k"
          by (auto simp: knownId_def)
        then show False
        proof cases
          case 1
          then show ?thesis using fresh1 by blast
        next
          case 2
          from fresh2 2(2) have "orderCounter acc = m" by blast
          with 2(1) oc show ?thesis by simp
        qed
      qed
      have k: "knownId synth S (Suc ?n) ?p" using oc by (auto simp: knownId_def)
      have c: "createEntry synth acc d =
               (acc \<lparr> entries := entries acc @ [\<lparr> e_id = ?p, e_name = [], e_arguments = [],
                                             e_index = None, e_order = orderCounter acc \<rparr>],
                  orderCounter := orderCounter acc + 1,
                  byIndex := byIndex acc,
                  byId := AList.update ?p ?n (byId acc) \<rparr>, ?n)"
        using nid noidx by (simp add: createEntry_def Let_def)
      show ?thesis
        using None nid orderedInv_append[OF inv a k] unfolding c by simp
    qed
  qed
  then obtain acc1 r where c: "(case lookupEntry acc d of Some r \<Rightarrow> (acc, r) | None \<Rightarrow> createEntry synth acc d) = (acc1, r)"
    and inv1: "orderedInv synth S acc1"
    and same: "idFromDelta d = None \<or> idFromDelta d = Some (e_id (entries acc1 ! r))"
    by blast
  have "accumulateToolCallDelta synth parses acc d = appendArguments parses (updateName acc1 r d) r d"
    unfolding accumulateToolCallDelta_def c using same noidx
    by (simp add: updateId_same registerIndex_None)
  then show ?thesis using inv1 by (simp add: orderedInv_updateName orderedInv_appendArguments)
qed

lemma orderedInv_empty: "orderedInv synth S emptyAccumulator"
  by (simp add: orderedInv_def emptyAccumulator_def)

lemma orderedInv_fold:
  assumes "orderedInv synth S acc" and "\<forall>d\<in>set ds. d_index d = None"
    and "\<forall>d\<in>set ds. idFromDelta d = None \<or> (\<exists>i\<in>S. idFromDelta d = Some i)"
    and "\<forall>n k. synth n k \<notin> S"
    and "\<forall>n k n' k'. synth n k = synth n' k' \<longrightarrow> n = n'"
  shows "orderedInv synth S (foldl (accumulateToolCallDelta synth parses) acc ds)"
  using assms
proof (induction ds arbitrary: acc)
  case Nil
  then show ?case by simp
next
  case (Cons d ds)
  have "orderedInv synth S (accumulateToolCallDelta synth parses acc d)"
    using Cons.prems by (intro orderedInv_step) simp_all
  with Cons show ?case by simp
qed

lemma orderedInv_assemble:
  assumes "orderedInv synth S acc"
  shows "assembleToolCalls acc = map toToolCall (entries acc)"
proof -
  have "map (\<lambda>(k, r). entries acc ! r) (byId acc) = map ((!) (entries acc)) (map snd (byId acc))"
    by (simp add: case_prod_unfold comp_def)
  also have "\<dots> = entries acc" using assms by (simp add: orderedInv_def map_nth)
  finally have v: "map (\<lambda>(k, r). entries acc ! r) (byId acc) = entries acc" .
  have "sorted (map e_order (entries acc))" using assms by (simp add: orderedInv_def)
  then have "sort_key e_order (entries acc) = entries acc" by (rule sort_key_id_if_sorted)
  with v assms show ?thesis by (simp add: assembleToolCalls_def orderedInv_def)
qed

lemma filter_named_toToolCall:
  "filter (\<lambda>tc. named (tc_name tc)) (map toToolCall es) = map toToolCall (filter (\<lambda>e. named (e_name e)) es)"
  by (induction es) (simp_all add: toToolCall_def)

text \<open>
  C2 (as stated) fails: an accumulated entry whose name is the single space is not empty,
  yet the assembled list does not contain it.
\<close>

theorem assembled_calls_blank_name_counterexample:
  "map e_name (entries (accumulateAll (\<lambda>n k. ''tool'') (\<lambda>s. s = ''{}'')
       [\<lparr>d_index = Some 0, d_id = Some ''a'', d_name = Some '' '', d_arguments = Some ''{}''\<rparr>]))
     = ['' '']
   \<and> '' '' \<noteq> []
   \<and> streamedToolCalls (\<lambda>n k. ''tool'') (\<lambda>s. s = ''{}'')
       [\<lparr>d_index = Some 0, d_id = Some ''a'', d_name = Some '' '', d_arguments = Some ''{}''\<rparr>] = []"
  by code_simp

text \<open>
  C2 (amended). For a fragment sequence in which every fragment carries an index, the final
  tool-call list consists of the stored entries sorted by their (pairwise different)
  indices, each entry whose name is not blank exactly once and no entry whose name is empty
  or white space only. For a fragment sequence in which no fragment carries an index, with
  fresh synthesized ids, it consists of the stored entries in creation (first-seen) order,
  again without those whose name is blank.
\<close>

theorem assembled_calls_uniform_streams:
  "((\<forall>d\<in>set ds. d_index d \<noteq> None) \<longrightarrow>
      streamedToolCalls synth parses ds =
        map toToolCall (filter (\<lambda>e. named (e_name e))
          (sort_key indexKey (entries (accumulateAll synth parses ds))))
      \<and> distinct (map indexKey (entries (accumulateAll synth parses ds))))
   \<and> ((\<forall>d\<in>set ds. d_index d = None) \<and> freshSynth synth ds \<longrightarrow>
      streamedToolCalls synth parses ds =
        map toToolCall (filter (\<lambda>e. named (e_name e)) (entries (accumulateAll synth parses ds)))
      \<and> map e_order (entries (accumulateAll synth parses ds))
          = [0..<length (entries (accumulateAll synth parses ds))])"
proof (intro conjI impI)
  assume "\<forall>d\<in>set ds. d_index d \<noteq> None"
  then have inv: "indexedInv (accumulateAll synth parses ds)"
    unfolding accumulateAll_def by (intro indexedInv_fold indexedInv_empty)
  show "streamedToolCalls synth parses ds =
        map toToolCall (filter (\<lambda>e. named (e_name e))
          (sort_key indexKey (entries (accumulateAll synth parses ds))))"
    by (simp add: streamedToolCalls_def indexedInv_assemble[OF inv] filter_named_toToolCall)
  show "distinct (map indexKey (entries (accumulateAll synth parses ds)))"
    using indexedInv_distinct[OF inv] by simp
next
  assume h: "(\<forall>d\<in>set ds. d_index d = None) \<and> freshSynth synth ds"
  let ?S = "{i. Some i \<in> idFromDelta ` set ds}"
  have ids: "\<forall>d\<in>set ds. idFromDelta d = None \<or> (\<exists>i\<in>?S. idFromDelta d = Some i)"
  proof
    fix d assume d: "d \<in> set ds"
    show "idFromDelta d = None \<or> (\<exists>i\<in>?S. idFromDelta d = Some i)"
    proof (cases "idFromDelta d")
      case None
      then show ?thesis by simp
    next
      case (Some i)
      with d have "Some i \<in> idFromDelta ` set ds" by force
      with Some show ?thesis by simp
    qed
  qed
  have f1: "\<forall>n k. synth n k \<notin> ?S" using h by (simp add: freshSynth_def)
  have f2: "\<forall>n k n' k'. synth n k = synth n' k' \<longrightarrow> n = n'" using h by (simp add: freshSynth_def)
  have inv: "orderedInv synth ?S (accumulateAll synth parses ds)"
    unfolding accumulateAll_def
    using h ids f1 f2 by (intro orderedInv_fold orderedInv_empty) simp_all
  show "streamedToolCalls synth parses ds =
        map toToolCall (filter (\<lambda>e. named (e_name e)) (entries (accumulateAll synth parses ds)))"
    by (simp add: streamedToolCalls_def orderedInv_assemble[OF inv] filter_named_toToolCall)
  show "map e_order (entries (accumulateAll synth parses ds))
          = [0..<length (entries (accumulateAll synth parses ds))]"
    using inv by (simp add: orderedInv_def)
qed

theorem assembled_calls_uniform_streams_witness:
  "streamedToolCalls (\<lambda>n k. replicate (Suc n) CHR ''#'') (\<lambda>s. s = ''{}'')
      [\<lparr>d_index = Some 1, d_id = Some ''b'', d_name = Some ''write'', d_arguments = Some ''{}''\<rparr>,
       \<lparr>d_index = Some 0, d_id = None, d_name = Some ''read'', d_arguments = None\<rparr>,
       \<lparr>d_index = Some 2, d_id = None, d_name = None, d_arguments = Some ''{}''\<rparr>]
     = map toToolCall (filter (\<lambda>e. named (e_name e))
          (sort_key indexKey (entries (accumulateAll (\<lambda>n k. replicate (Suc n) CHR ''#'') (\<lambda>s. s = ''{}'')
      [\<lparr>d_index = Some 1, d_id = Some ''b'', d_name = Some ''write'', d_arguments = Some ''{}''\<rparr>,
       \<lparr>d_index = Some 0, d_id = None, d_name = Some ''read'', d_arguments = None\<rparr>,
       \<lparr>d_index = Some 2, d_id = None, d_name = None, d_arguments = Some ''{}''\<rparr>]))))
   \<and> streamedToolCalls (\<lambda>n k. replicate (Suc n) CHR ''#'') (\<lambda>s. s = ''{}'')
      [\<lparr>d_index = Some 1, d_id = Some ''b'', d_name = Some ''write'', d_arguments = Some ''{}''\<rparr>,
       \<lparr>d_index = Some 0, d_id = None, d_name = Some ''read'', d_arguments = None\<rparr>,
       \<lparr>d_index = Some 2, d_id = None, d_name = None, d_arguments = Some ''{}''\<rparr>]
     = [\<lparr>tc_id = ''##'', tc_name = ''read'', tc_arguments = []\<rparr>,
        \<lparr>tc_id = ''b'', tc_name = ''write'', tc_arguments = ''{}''\<rparr>]
   \<and> streamedToolCalls (\<lambda>n k. replicate (Suc n) CHR ''#'') (\<lambda>s. s = ''{}'')
      [\<lparr>d_index = None, d_id = Some ''b'', d_name = Some ''write'', d_arguments = Some ''{}''\<rparr>,
       \<lparr>d_index = None, d_id = None, d_name = Some ''read'', d_arguments = None\<rparr>,
       \<lparr>d_index = None, d_id = Some ''b'', d_name = None, d_arguments = Some ''x''\<rparr>]
     = map toToolCall (filter (\<lambda>e. named (e_name e))
          (entries (accumulateAll (\<lambda>n k. replicate (Suc n) CHR ''#'') (\<lambda>s. s = ''{}'')
      [\<lparr>d_index = None, d_id = Some ''b'', d_name = Some ''write'', d_arguments = Some ''{}''\<rparr>,
       \<lparr>d_index = None, d_id = None, d_name = Some ''read'', d_arguments = None\<rparr>,
       \<lparr>d_index = None, d_id = Some ''b'', d_name = None, d_arguments = Some ''x''\<rparr>])))
   \<and> streamedToolCalls (\<lambda>n k. replicate (Suc n) CHR ''#'') (\<lambda>s. s = ''{}'')
      [\<lparr>d_index = None, d_id = Some ''b'', d_name = Some ''write'', d_arguments = Some ''{}''\<rparr>,
       \<lparr>d_index = None, d_id = None, d_name = Some ''read'', d_arguments = None\<rparr>,
       \<lparr>d_index = None, d_id = Some ''b'', d_name = None, d_arguments = Some ''x''\<rparr>]
     = [\<lparr>tc_id = ''b'', tc_name = ''write'', tc_arguments = ''{}''\<rparr>,
        \<lparr>tc_id = ''##'', tc_name = ''read'', tc_arguments = []\<rparr>]"
proof -
  let ?synth = "\<lambda>(n::nat) (k::int). replicate (Suc n) CHR ''#''"
  let ?parses = "\<lambda>s. s = ''{}''"
  let ?ds1 = "[\<lparr>d_index = Some 1, d_id = Some ''b'', d_name = Some ''write'', d_arguments = Some ''{}''\<rparr>,
       \<lparr>d_index = Some 0, d_id = None, d_name = Some ''read'', d_arguments = None\<rparr>,
       \<lparr>d_index = Some 2, d_id = None, d_name = None, d_arguments = Some ''{}''\<rparr>]"
  let ?ds2 = "[\<lparr>d_index = None, d_id = Some ''b'', d_name = Some ''write'', d_arguments = Some ''{}''\<rparr>,
       \<lparr>d_index = None, d_id = None, d_name = Some ''read'', d_arguments = None\<rparr>,
       \<lparr>d_index = None, d_id = Some ''b'', d_name = None, d_arguments = Some ''x''\<rparr>]"
  have h1: "\<forall>d\<in>set ?ds1. d_index d \<noteq> None" by simp
  have h2: "\<forall>d\<in>set ?ds2. d_index d = None" by simp
  have h3: "freshSynth ?synth ?ds2" by (simp add: freshSynth_def idFromDelta_def)
  have v1: "streamedToolCalls ?synth ?parses ?ds1
     = [\<lparr>tc_id = ''##'', tc_name = ''read'', tc_arguments = []\<rparr>,
        \<lparr>tc_id = ''b'', tc_name = ''write'', tc_arguments = ''{}''\<rparr>]"
    by code_simp
  have v2: "streamedToolCalls ?synth ?parses ?ds2
     = [\<lparr>tc_id = ''b'', tc_name = ''write'', tc_arguments = ''{}''\<rparr>,
        \<lparr>tc_id = ''##'', tc_name = ''read'', tc_arguments = []\<rparr>]"
    by code_simp
  from assembled_calls_uniform_streams[where ds = ?ds1 and synth = ?synth and parses = ?parses] h1
  have t1: "streamedToolCalls ?synth ?parses ?ds1 =
        map toToolCall (filter (\<lambda>e. named (e_name e))
          (sort_key indexKey (entries (accumulateAll ?synth ?parses ?ds1))))"
    by blast
  from assembled_calls_uniform_streams[where ds = ?ds2 and synth = ?synth and parses = ?parses] h2 h3
  have t2: "streamedToolCalls ?synth ?parses ?ds2 =
        map toToolCall (filter (\<lambda>e. named (e_name e)) (entries (accumulateAll ?synth ?parses ?ds2)))"
    by blast
  show ?thesis
    using t1 t2 v1 v2 by (intro conjI)
qed

text \<open>
  Streams that mix fragments with and without an index are outside the statement above.
  There, as soon as one entry is registered in \<open>byIndex\<close>, the assembly reads that map
  alone: a named entry that never received an index is stored but not reported.
\<close>

lemma mixed_stream_omits_unindexed_entry:
  "map e_name (entries (accumulateAll (\<lambda>n k. ''tool'') (\<lambda>s. s = ''{}'')
       [\<lparr>d_index = None, d_id = Some ''a'', d_name = Some ''read'', d_arguments = Some ''{}''\<rparr>,
        \<lparr>d_index = Some 0, d_id = Some ''b'', d_name = Some ''write'', d_arguments = Some ''{}''\<rparr>]))
     = [''read'', ''write'']
   \<and> map tc_name (streamedToolCalls (\<lambda>n k. ''tool'') (\<lambda>s. s = ''{}'')
       [\<lparr>d_index = None, d_id = Some ''a'', d_name = Some ''read'', d_arguments = Some ''{}''\<rparr>,
        \<lparr>d_index = Some 0, d_id = Some ''b'', d_name = Some ''write'', d_arguments = Some ''{}''\<rparr>])
     = [''write'']"
  by code_simp

section \<open>Message sanitizer\<close>

lemma pruneToolCalls_idem: "pruneToolCalls (pruneToolCalls m) = pruneToolCalls m"
  by (cases "tool_calls m") (simp_all add: pruneToolCalls_def Let_def)

lemma pruneAll_apply:
  "pruneAll h rs r = (if r \<in> set rs then pruneToolCalls (h r) else h r)"
  by (induction rs arbitrary: h) (auto simp: pruneToolCalls_idem)

lemma filterContext_values:
  "map h (filterContext h valid refs) = filterValues valid (map h refs)"
  by (induction refs arbitrary: valid) simp_all

lemma filterContext_subset: "set (filterContext h valid refs) \<subseteq> set refs"
  by (induction refs arbitrary: valid) auto

lemma validIdsAt_0: "validIdsAt initial ms 0 = initial"
  by (simp add: validIdsAt_def)

lemma find_snoc:
  "find P (xs @ [x]) = (case find P xs of Some y \<Rightarrow> Some y | None \<Rightarrow> if P x then Some x else None)"
  by (induction xs) auto

lemma validIdsAt_Suc:
  "validIdsAt initial (m # ms) (Suc i) =
     validIdsAt (if carriesToolCalls m then toolCallIds m else initial) ms i"
  by (simp add: validIdsAt_def find_snoc split: option.splits)

lemma orphanAt_0: "orphanAt initial (m # ms) 0 = (role m = Tool \<and> droppedTool initial m)"
  by (simp add: orphanAt_def validIdsAt_0)

lemma orphanAt_Suc:
  "orphanAt initial (m # ms) (Suc i) =
     orphanAt (if carriesToolCalls m then toolCallIds m else initial) ms i"
  by (simp add: orphanAt_def validIdsAt_Suc)

lemma upt_0_Suc: "[0..<Suc n] = 0 # map Suc [0..<n]"
  by (simp add: upt_conv_Cons map_Suc_upt del: upt_Suc)

lemma filter_map_Suc:
  "filter Q (map Suc xs) = map Suc (filter (\<lambda>i. Q (Suc i)) xs)"
  by (induction xs) auto

lemma filterValues_by_position:
  "filterValues initial ms = map ((!) ms) (filter (\<lambda>i. \<not> orphanAt initial ms i) [0..<length ms])"
proof (induction ms arbitrary: initial)
  case Nil
  then show ?case by simp
next
  case (Cons m ms)
  have shift: "map ((!) (m # ms)) (filter (\<lambda>i. \<not> orphanAt initial (m # ms) i) (map Suc [0..<length ms]))
        = map ((!) ms) (filter (\<lambda>i. \<not> orphanAt (if carriesToolCalls m then toolCallIds m else initial) ms i) [0..<length ms])"
    by (simp add: filter_map_Suc orphanAt_Suc comp_def)
  have notTool: "carriesToolCalls m \<Longrightarrow> role m \<noteq> Tool" by (simp add: carriesToolCalls_def)
  show ?case
    unfolding length_Cons upt_0_Suc
    using notTool by (simp add: orphanAt_0 shift Cons.IH del: upt_Suc)
qed

lemma linked_by_position:
  "linked initial ms = (\<forall>i<length ms. \<not> orphanAt initial ms i)"
proof (induction ms arbitrary: initial)
  case Nil
  then show ?case by simp
next
  case (Cons m ms)
  have split: "(\<forall>i<length (m # ms). \<not> orphanAt initial (m # ms) i)
        = (\<not> orphanAt initial (m # ms) 0 \<and> (\<forall>i<length ms. \<not> orphanAt initial (m # ms) (Suc i)))"
    by (auto simp: less_Suc_eq_0_disj)
  have notTool: "carriesToolCalls m \<Longrightarrow> role m \<noteq> Tool" by (simp add: carriesToolCalls_def)
  show ?case
    unfolding split orphanAt_0 orphanAt_Suc
    using notTool by (simp add: Cons.IH)
qed

lemma pruneToolCalls_role: "role (pruneToolCalls m) = role m"
  by (simp add: pruneToolCalls_def Let_def split: option.splits)

lemma pruneToolCalls_not_assistant: "role m \<noteq> Assistant \<Longrightarrow> pruneToolCalls m = m"
  by (simp add: pruneToolCalls_def)

lemma pruneToolCalls_no_calls: "tool_calls m = None \<Longrightarrow> pruneToolCalls m = m"
  by (simp add: pruneToolCalls_def)

lemma pruneToolCalls_ids:
  assumes "carriesToolCalls m"
  shows "(carriesToolCalls (pruneToolCalls m) \<and> set (toolCallIds (pruneToolCalls m)) = set (toolCallIds m) - {[]})
       \<or> (\<not> carriesToolCalls (pruneToolCalls m) \<and> set (toolCallIds m) \<subseteq> {[]})"
proof -
  from assms obtain tcs where t: "role m = Assistant" "tool_calls m = Some tcs"
    by (auto simp: carriesToolCalls_def)
  show ?thesis
  proof (cases "filter (\<lambda>tc. tc_id tc \<noteq> []) tcs = []")
    case True
    then have "\<forall>tc\<in>set tcs. tc_id tc = []" by (simp add: filter_empty_conv)
    then show ?thesis using t True
      by (auto simp: pruneToolCalls_def carriesToolCalls_def toolCallIds_def Let_def)
  next
    case False
    then show ?thesis using t
      by (auto simp: pruneToolCalls_def carriesToolCalls_def toolCallIds_def Let_def)
  qed
qed

lemma droppedTool_mono:
  assumes "\<not> droppedTool valid m" and "\<forall>i\<in>set valid. i \<noteq> [] \<longrightarrow> i \<in> set valid'"
  shows "\<not> droppedTool valid' m"
  using assms by (auto simp: droppedTool_def split: option.splits)

lemma linked_pruned_filter:
  assumes "\<forall>i\<in>set valid. i \<noteq> [] \<longrightarrow> i \<in> set valid'"
  shows "linked valid' (map pruneToolCalls (filterValues valid ms))"
  using assms
proof (induction ms arbitrary: valid valid')
  case Nil
  then show ?case by simp
next
  case (Cons m ms)
  show ?case
  proof (cases "carriesToolCalls m")
    case True
    from pruneToolCalls_ids[OF True] show ?thesis
    proof
      assume a: "carriesToolCalls (pruneToolCalls m) \<and> set (toolCallIds (pruneToolCalls m)) = set (toolCallIds m) - {[]}"
      then have "\<forall>i\<in>set (toolCallIds m). i \<noteq> [] \<longrightarrow> i \<in> set (toolCallIds (pruneToolCalls m))" by auto
      then have "linked (toolCallIds (pruneToolCalls m)) (map pruneToolCalls (filterValues (toolCallIds m) ms))"
        by (rule Cons.IH)
      with a True show ?thesis by simp
    next
      assume a: "\<not> carriesToolCalls (pruneToolCalls m) \<and> set (toolCallIds m) \<subseteq> {[]}"
      then have "\<forall>i\<in>set (toolCallIds m). i \<noteq> [] \<longrightarrow> i \<in> set valid'" by auto
      then have "linked valid' (map pruneToolCalls (filterValues (toolCallIds m) ms))"
        by (rule Cons.IH)
      moreover have "role (pruneToolCalls m) \<noteq> Tool"
        using True by (simp add: pruneToolCalls_role carriesToolCalls_def)
      ultimately show ?thesis using a True by simp
    qed
  next
    case False
    then have same: "pruneToolCalls m = m"
      by (cases "role m = Assistant")
         (auto simp: carriesToolCalls_def pruneToolCalls_no_calls pruneToolCalls_not_assistant)
    have rest: "linked valid' (map pruneToolCalls (filterValues valid ms))"
      using Cons.prems by (rule Cons.IH)
    show ?thesis
    proof (cases "role m = Tool \<and> droppedTool valid m")
      case True
      with False rest show ?thesis by simp
    next
      case nd: False
      have "\<not> (role m = Tool \<and> droppedTool valid' m)"
        using nd droppedTool_mono[OF _ Cons.prems] by blast
      with False nd rest same show ?thesis by simp
    qed
  qed
qed

lemma find_append_case:
  "find P (xs @ ys) = (case find P xs of Some y \<Rightarrow> Some y | None \<Rightarrow> find P ys)"
  by (induction xs) auto

lemma validIdsAt_append:
  "validIdsAt initial (xs @ ys) (length xs + j) = validIdsAt (validIdsAt initial xs (length xs)) ys j"
  by (simp add: validIdsAt_def find_append_case split: option.splits)

lemma orphanAt_append:
  "orphanAt initial (xs @ ys) (length xs + j) = orphanAt (validIdsAt initial xs (length xs)) ys j"
  by (simp add: orphanAt_def validIdsAt_append nth_append)

lemma pruneToolCalls_not_empty: "role (pruneToolCalls m) = Assistant \<Longrightarrow> tool_calls (pruneToolCalls m) \<noteq> Some []"
  by (cases "tool_calls m") (auto simp: pruneToolCalls_def Let_def split: if_splits)

lemma sanitizeContext_values:
  "map (fst (sanitizeContext h refs)) (snd (sanitizeContext h refs))
     = map pruneToolCalls (filterValues [] (map h refs))"
proof -
  have "map (pruneAll h (filterContext h [] refs)) (filterContext h [] refs)
          = map (\<lambda>r. pruneToolCalls (h r)) (filterContext h [] refs)"
    by (simp add: pruneAll_apply)
  also have "\<dots> = map pruneToolCalls (map h (filterContext h [] refs))"
    by (simp add: comp_def)
  finally show ?thesis
    by (simp add: sanitizeContext_def Let_def filterContext_values)
qed

lemma buildMessagesToPass_sent:
  "snd (buildMessagesToPass st cb h base (Some refs))
     = optimizeInputs st cb (map h base) @ map pruneToolCalls (filterValues [] (map h refs))"
  using sanitizeContext_values[of h refs]
  by (cases "sanitizeContext h refs") (simp add: buildMessagesToPass_def Let_def)

text \<open>
  The sanitizer by itself does what the specification says of it. The context part of
  \<open>messagesToPass\<close> consists of the context messages that are not orphans, in order, with
  the tool calls without id removed; none of its tool messages is an orphan within the whole
  list; and none of its assistant messages carries an empty \<open>tool_calls\<close> array.
\<close>

lemma sanitizer_output:
  assumes "sent = snd (buildMessagesToPass st cb h base (Some refs))"
  shows "sent = optimizeInputs st cb (map h base)
                @ map pruneToolCalls (map ((!) (map h refs)) (filter (\<lambda>i. \<not> orphanAt [] (map h refs) i) [0..<length (map h refs)]))"
    and "\<forall>j. length base \<le> j \<and> j < length sent \<longrightarrow> \<not> orphanAt [] sent j"
    and "\<forall>m\<in>set (drop (length base) sent). role m = Assistant \<longrightarrow> tool_calls m \<noteq> Some []"
proof -
  let ?ms = "map h refs"
  let ?opt = "optimizeInputs st cb (map h base)"
  let ?out = "map pruneToolCalls (filterValues [] ?ms)"
  have sent: "sent = ?opt @ ?out"
    using assms by (simp add: buildMessagesToPass_sent)
  have len: "length ?opt = length base" by (simp add: optimizeInputs_def)
  show "sent = ?opt @ map pruneToolCalls (map ((!) ?ms) (filter (\<lambda>i. \<not> orphanAt [] ?ms i) [0..<length ?ms]))"
    using sent filterValues_by_position[of "[]" ?ms] by simp
  have "linked (validIdsAt [] ?opt (length ?opt)) ?out"
    by (rule linked_pruned_filter) simp
  then have l: "\<forall>i<length ?out. \<not> orphanAt [] (?opt @ ?out) (length ?opt + i)"
    by (simp add: linked_by_position orphanAt_append)
  show "\<forall>j. length base \<le> j \<and> j < length sent \<longrightarrow> \<not> orphanAt [] sent j"
  proof (intro allI impI)
    fix j assume j: "length base \<le> j \<and> j < length sent"
    then have "j - length ?opt < length ?out" using sent len by auto
    with l have "\<not> orphanAt [] (?opt @ ?out) (length ?opt + (j - length ?opt))" by blast
    then show "\<not> orphanAt [] sent j" using j sent len by simp
  qed
  show "\<forall>m\<in>set (drop (length base) sent). role m = Assistant \<longrightarrow> tool_calls m \<noteq> Some []"
    using sent len by (auto simp: pruneToolCalls_not_empty)
qed

text \<open>
  C5. The sanitizer writes to the caller's objects. A context whose only message is an
  assistant message with one tool call without id: after the sanitizer the caller's
  message object no longer has its \<open>tool_calls\<close> array.
\<close>

theorem sanitizer_mutates_context_message:
  "tool_calls ((\<lambda>a. \<lparr>role = Assistant, content = Text ''calling'',
                      tool_calls = Some [\<lparr>tc_id = [], tc_name = ''read'', tc_arguments = ''{}''\<rparr>],
                      name = None, tool_call_id = None\<rparr>) 0)
     = Some [\<lparr>tc_id = [], tc_name = ''read'', tc_arguments = ''{}''\<rparr>]
   \<and> tool_calls (fst (buildMessagesToPass (\<lambda>s. s) (\<lambda>s. s)
        (\<lambda>a. \<lparr>role = Assistant, content = Text ''calling'',
               tool_calls = Some [\<lparr>tc_id = [], tc_name = ''read'', tc_arguments = ''{}''\<rparr>],
               name = None, tool_call_id = None\<rparr>)
        [] (Some [0])) 0)
     = None"
  by (simp add: buildMessagesToPass_def sanitizeContext_def optimizeInputs_def carriesToolCalls_def
        pruneToolCalls_def Let_def)

section \<open>Structured-output repair: idempotence\<close>

lemma normalize_JObj: "normalizeBlueprintData (JObj raw) = JObj (normalizeMembers raw)"
  unfolding normalizeMembers_def by (rule normalizeBlueprintData.simps(2))

lemma map_of_present: "map_of obj k = Some v \<Longrightarrow> k \<in> fst ` set obj"
  by (induction obj) (auto split: if_splits)

lemma update_present_commute:
  "k \<noteq> k' \<Longrightarrow> k \<in> fst ` set obj \<Longrightarrow> k' \<in> fst ` set obj \<Longrightarrow>
   AList.update k a (AList.update k' b obj) = AList.update k' b (AList.update k a obj)"
  by (induction obj) auto

lemma modifyField_commute:
  assumes "k \<noteq> k'"
  shows "modifyField k f (modifyField k' g obj) = modifyField k' g (modifyField k f obj)"
proof (cases "map_of obj k")
  case None
  then show ?thesis using assms
    by (simp add: modifyField_def update_conv' split: option.splits)
next
  case (Some a)
  show ?thesis
  proof (cases "map_of obj k'")
    case None
    then show ?thesis using assms Some
      by (simp add: modifyField_def update_conv' split: option.splits)
  next
    case (Some b)
    have "k \<in> fst ` set obj" using \<open>map_of obj k = Some a\<close> by (rule map_of_present)
    moreover have "k' \<in> fst ` set obj" using Some by (rule map_of_present)
    ultimately show ?thesis using assms Some \<open>map_of obj k = Some a\<close>
      by (simp add: modifyField_def update_conv' update_present_commute)
  qed
qed

lemma modifyField_twice:
  "modifyField k f (modifyField k g obj) = modifyField k (\<lambda>v. f (g v)) obj"
  by (simp add: modifyField_def update_conv' split: option.splits)

lemma modifyField_id:
  assumes "\<And>v. map_of obj k = Some v \<Longrightarrow> f v = v"
  shows "modifyField k f obj = obj"
proof (cases "map_of obj k")
  case None
  then show ?thesis by (simp add: modifyField_def)
next
  case (Some v)
  then have "AList.update k v obj = obj" by (induction obj) (auto split: if_splits)
  with Some assms show ?thesis by (simp add: modifyField_def)
qed

lemma map_of_withKeyFirst_other:
  "k \<noteq> k' \<Longrightarrow> map_of (withKeyFirst k' v obj) k = map_of obj k"
proof -
  assume "k \<noteq> k'"
  have "map_of obj k = map_of (takeWhile (\<lambda>p. isArrayIndex (fst p)) obj @ dropWhile (\<lambda>p. isArrayIndex (fst p)) obj) k"
    by simp
  then show ?thesis using \<open>k \<noteq> k'\<close>
    by (simp add: withKeyFirst_def map_add_def split: option.splits del: takeWhile_dropWhile_id)
qed

lemma withKeyFirst_Cons:
  "withKeyFirst k v (p # obj) =
     (if isArrayIndex (fst p) then p # withKeyFirst k v obj else (k, v) # p # obj)"
  by (simp add: withKeyFirst_def)

lemma update_withKeyFirst:
  "k \<noteq> k' \<Longrightarrow> k \<in> fst ` set obj \<Longrightarrow>
   AList.update k a (withKeyFirst k' v obj) = withKeyFirst k' v (AList.update k a obj)"
proof (induction obj)
  case Nil
  then show ?case by simp
next
  case (Cons p obj)
  obtain pk pv where p: "p = (pk, pv)" by (cases p)
  show ?case
  proof (cases "pk = k")
    case True
    then show ?thesis using Cons.prems p by (simp add: withKeyFirst_Cons)
  next
    case False
    with Cons.prems p have "k \<in> fst ` set obj" by auto
    with Cons have "AList.update k a (withKeyFirst k' v obj) = withKeyFirst k' v (AList.update k a obj)"
      by simp
    then show ?thesis using False Cons.prems p by (simp add: withKeyFirst_Cons)
  qed
qed

lemma modifyField_withKeyFirst:
  assumes "k \<noteq> k'"
  shows "modifyField k f (withKeyFirst k' v obj) = withKeyFirst k' v (modifyField k f obj)"
proof (cases "map_of obj k")
  case None
  then show ?thesis using assms by (simp add: modifyField_def map_of_withKeyFirst_other)
next
  case (Some a)
  then have "k \<in> fst ` set obj" by (rule map_of_present)
  then show ?thesis using assms Some
    by (simp add: modifyField_def map_of_withKeyFirst_other update_withKeyFirst)
qed

lemma normalizeMembers_withKeyFirst:
  assumes "k \<notin> {''views'', ''implementationRoadmap'', ''initialPhase'', ''pitfalls'', ''frameworks'', ''colorPalette''}"
  shows "normalizeMembers (withKeyFirst k v obj) = withKeyFirst k v (normalizeMembers obj)"
proof -
  have ne: "''views'' \<noteq> k" "''implementationRoadmap'' \<noteq> k" "''initialPhase'' \<noteq> k"
    "''pitfalls'' \<noteq> k" "''frameworks'' \<noteq> k" "''colorPalette'' \<noteq> k"
    using assms by auto
  show ?thesis
    unfolding normalizeMembers_def
    by (simp only: modifyField_withKeyFirst[OF ne(1)] modifyField_withKeyFirst[OF ne(2)]
          modifyField_withKeyFirst[OF ne(3)] modifyField_withKeyFirst[OF ne(4)]
          modifyField_withKeyFirst[OF ne(5)] modifyField_withKeyFirst[OF ne(6)])
qed

lemma normalizeMembers_modifyField:
  assumes "k \<notin> {''views'', ''implementationRoadmap'', ''initialPhase'', ''pitfalls'', ''frameworks'', ''colorPalette''}"
  shows "normalizeMembers (modifyField k g obj) = modifyField k g (normalizeMembers obj)"
proof -
  have ne: "''views'' \<noteq> k" "''implementationRoadmap'' \<noteq> k" "''initialPhase'' \<noteq> k"
    "''pitfalls'' \<noteq> k" "''frameworks'' \<noteq> k" "''colorPalette'' \<noteq> k"
    using assms by auto
  show ?thesis
    unfolding normalizeMembers_def
    by (simp only: modifyField_commute[OF ne(1)] modifyField_commute[OF ne(2)]
          modifyField_commute[OF ne(3)] modifyField_commute[OF ne(4)]
          modifyField_commute[OF ne(5)] modifyField_commute[OF ne(6)])
qed

lemma normalizeMembers_alt:
  "normalizeMembers raw =
     modifyField ''colorPalette'' stringValues
          (modifyField ''frameworks'' stringValues
          (modifyField ''pitfalls'' stringValues
          (modifyField ''initialPhase'' initialPhaseField
          (modifyField ''implementationRoadmap'' (objectToArray ''phase'' normalizeBlueprintData)
          (modifyField ''views'' (objectToArray ''name'' normalizeBlueprintData) raw)))))"
  unfolding normalizeMembers_def initialPhaseField_def ..

lemma entryToItem_fixed:
  assumes "normalizeBlueprintData (normalizeBlueprintData (snd e)) = normalizeBlueprintData (snd e)"
    and "idField \<notin> {''views'', ''implementationRoadmap'', ''initialPhase'', ''pitfalls'', ''frameworks'', ''colorPalette''}"
  shows "normalizeBlueprintData (entryToItem idField normalizeBlueprintData e)
           = entryToItem idField normalizeBlueprintData e"
proof -
  obtain key val where e: "e = (key, val)" by (cases e)
  show ?thesis
  proof (cases "\<exists>members. val = JObj members \<and> map_of members idField = None")
    case True
    then obtain members where m: "val = JObj members" "map_of members idField = None" by blast
    have item: "entryToItem idField normalizeBlueprintData e
                  = JObj (withKeyFirst idField (JStr key) (normalizeMembers members))"
      using e m by (simp add: entryToItem_def normalize_JObj del: normalizeBlueprintData.simps)
    have "normalizeMembers (normalizeMembers members) = normalizeMembers members"
      using assms(1) e m by (simp add: normalize_JObj del: normalizeBlueprintData.simps)
    then show ?thesis
      unfolding item normalize_JObj normalizeMembers_withKeyFirst[OF assms(2)] by simp
  next
    case False
    then have "entryToItem idField normalizeBlueprintData e = normalizeBlueprintData val"
      using e by (auto simp: entryToItem_def split: json.splits simp del: normalizeBlueprintData.simps)
    then show ?thesis using assms(1) e by simp
  qed
qed

lemma objectToArray_idem:
  assumes "\<And>y. size y < size v \<Longrightarrow> normalizeBlueprintData (normalizeBlueprintData y) = normalizeBlueprintData y"
    and "idField \<notin> {''views'', ''implementationRoadmap'', ''initialPhase'', ''pitfalls'', ''frameworks'', ''colorPalette''}"
  shows "objectToArray idField normalizeBlueprintData (objectToArray idField normalizeBlueprintData v)
           = objectToArray idField normalizeBlueprintData v"
proof (cases v)
  case (JArr xs)
  have "\<forall>x\<in>set xs. normalizeBlueprintData (normalizeBlueprintData x) = normalizeBlueprintData x"
    using assms(1) JArr by (auto simp: size_item simp del: normalizeBlueprintData.simps)
  then show ?thesis using JArr by (simp add: objectToArray_def del: normalizeBlueprintData.simps)
next
  case (JObj es)
  have "\<forall>e\<in>set es. normalizeBlueprintData (entryToItem idField normalizeBlueprintData e)
           = entryToItem idField normalizeBlueprintData e"
  proof
    fix e assume "e \<in> set es"
    then have "size (snd e) < size v" using JObj by (simp add: size_entry)
    then have "normalizeBlueprintData (normalizeBlueprintData (snd e)) = normalizeBlueprintData (snd e)"
      by (rule assms(1))
    then show "normalizeBlueprintData (entryToItem idField normalizeBlueprintData e)
           = entryToItem idField normalizeBlueprintData e"
      using assms(2) by (rule entryToItem_fixed)
  qed
  then show ?thesis using JObj by (simp add: objectToArray_def del: normalizeBlueprintData.simps)
qed (simp_all add: objectToArray_def)

lemma stringValues_idem: "stringValues (stringValues v) = stringValues v"
  by (cases v) (simp_all add: stringValues_def)

lemma filesToArray_idem: "filesToArray recur (filesToArray recur v) = filesToArray recur v"
  by (cases v) (simp_all add: filesToArray_def)

lemma initialPhaseField_idem:
  assumes "normalizeBlueprintData (normalizeBlueprintData v) = normalizeBlueprintData v"
  shows "initialPhaseField (initialPhaseField v) = initialPhaseField v"
proof (cases v)
  case (JObj members)
  let ?F = "filesToArray normalizeBlueprintData"
  let ?nz = "normalizeMembers members"
  have w: "initialPhaseField v = JObj (modifyField ''files'' ?F ?nz)"
    using JObj by (simp add: initialPhaseField_def normalize_JObj del: normalizeBlueprintData.simps)
  have fixed: "normalizeMembers ?nz = ?nz"
    using assms JObj by (simp add: normalize_JObj del: normalizeBlueprintData.simps)
  have "normalizeMembers (modifyField ''files'' ?F ?nz) = modifyField ''files'' ?F ?nz"
    using fixed by (simp add: normalizeMembers_modifyField)
  then have "initialPhaseField (JObj (modifyField ''files'' ?F ?nz))
               = JObj (modifyField ''files'' ?F (modifyField ''files'' ?F ?nz))"
    by (simp add: initialPhaseField_def normalize_JObj del: normalizeBlueprintData.simps)
  also have "\<dots> = JObj (modifyField ''files'' ?F ?nz)"
    by (simp add: modifyField_twice filesToArray_idem)
  finally show ?thesis unfolding w .
qed (simp_all add: initialPhaseField_def)

lemma normalizeMembers_fixed:
  assumes IH: "\<And>y. size y < size (JObj raw) \<Longrightarrow>
                 normalizeBlueprintData (normalizeBlueprintData y) = normalizeBlueprintData y"
  shows "normalizeMembers (normalizeMembers raw) = normalizeMembers raw"
proof -
  define r where "r = normalizeMembers raw"
  let ?views = "objectToArray ''name'' normalizeBlueprintData"
  let ?roadmap = "objectToArray ''phase'' normalizeBlueprintData"
  have sub: "size y < size v \<Longrightarrow> map_of raw k = Some v \<Longrightarrow>
             normalizeBlueprintData (normalizeBlueprintData y) = normalizeBlueprintData y" for y v k
    using IH size_member[of raw k v] by (meson less_trans)
  have whole: "map_of raw k = Some v \<Longrightarrow>
             normalizeBlueprintData (normalizeBlueprintData v) = normalizeBlueprintData v" for v k
    using IH size_member[of raw k v] by blast
  have m1: "map_of r ''views'' = map_option ?views (map_of raw ''views'')"
    unfolding r_def normalizeMembers_alt by (simp add: map_of_modifyField_other map_of_modifyField_same)
  have m2: "map_of r ''implementationRoadmap'' = map_option ?roadmap (map_of raw ''implementationRoadmap'')"
    unfolding r_def normalizeMembers_alt by (simp add: map_of_modifyField_other map_of_modifyField_same)
  have m3: "map_of r ''initialPhase'' = map_option initialPhaseField (map_of raw ''initialPhase'')"
    unfolding r_def normalizeMembers_alt by (simp add: map_of_modifyField_other map_of_modifyField_same)
  have m4: "map_of r ''pitfalls'' = map_option stringValues (map_of raw ''pitfalls'')"
    unfolding r_def normalizeMembers_alt by (simp add: map_of_modifyField_other map_of_modifyField_same)
  have m5: "map_of r ''frameworks'' = map_option stringValues (map_of raw ''frameworks'')"
    unfolding r_def normalizeMembers_alt by (simp add: map_of_modifyField_other map_of_modifyField_same)
  have m6: "map_of r ''colorPalette'' = map_option stringValues (map_of raw ''colorPalette'')"
    unfolding r_def normalizeMembers_alt by (simp add: map_of_modifyField_other map_of_modifyField_same)
  have s1: "modifyField ''views'' ?views r = r"
  proof (rule modifyField_id)
    fix w assume "map_of r ''views'' = Some w"
    with m1 obtain v where v: "map_of raw ''views'' = Some v" "w = ?views v" by (cases "map_of raw ''views''") auto
    show "?views w = w" unfolding v(2)
      by (rule objectToArray_idem) (auto intro: sub[OF _ v(1)])
  qed
  have s2: "modifyField ''implementationRoadmap'' ?roadmap r = r"
  proof (rule modifyField_id)
    fix w assume "map_of r ''implementationRoadmap'' = Some w"
    with m2 obtain v where v: "map_of raw ''implementationRoadmap'' = Some v" "w = ?roadmap v" by (cases "map_of raw ''implementationRoadmap''") auto
    show "?roadmap w = w" unfolding v(2)
      by (rule objectToArray_idem) (auto intro: sub[OF _ v(1)])
  qed
  have s3: "modifyField ''initialPhase'' initialPhaseField r = r"
  proof (rule modifyField_id)
    fix w assume "map_of r ''initialPhase'' = Some w"
    with m3 obtain v where v: "map_of raw ''initialPhase'' = Some v" "w = initialPhaseField v" by (cases "map_of raw ''initialPhase''") auto
    show "initialPhaseField w = w" unfolding v(2)
      by (rule initialPhaseField_idem) (rule whole[OF v(1)])
  qed
  have s4: "modifyField ''pitfalls'' stringValues r = r"
    by (rule modifyField_id) (use m4 in \<open>auto simp: stringValues_idem split: option.splits\<close>)
  have s5: "modifyField ''frameworks'' stringValues r = r"
    by (rule modifyField_id) (use m5 in \<open>auto simp: stringValues_idem split: option.splits\<close>)
  have s6: "modifyField ''colorPalette'' stringValues r = r"
    by (rule modifyField_id) (use m6 in \<open>auto simp: stringValues_idem split: option.splits\<close>)
  have "normalizeMembers r = r"
    unfolding normalizeMembers_alt[of r] by (simp only: s1 s2 s3 s4 s5 s6)
  then show ?thesis unfolding r_def .
qed

lemma normalize_idem: "normalizeBlueprintData (normalizeBlueprintData raw) = normalizeBlueprintData raw"
proof (induction raw rule: measure_induct_rule[where f = size])
  case (less raw)
  show ?case
  proof (cases raw)
    case (JArr xs)
    have "\<forall>x\<in>set xs. normalizeBlueprintData (normalizeBlueprintData x) = normalizeBlueprintData x"
      using less JArr by (auto simp: size_item simp del: normalizeBlueprintData.simps)
    then show ?thesis using JArr by simp
  next
    case (JObj members)
    have "normalizeMembers (normalizeMembers members) = normalizeMembers members"
      by (rule normalizeMembers_fixed) (use less JObj in blast)
    then show ?thesis using JObj by (simp add: normalize_JObj del: normalizeBlueprintData.simps)
  qed simp_all
qed

text \<open>
  C8. The array-repair pass is idempotent: applied to any of its own outputs it returns that
  output unchanged.
\<close>

theorem normalizeBlueprintData_idempotent:
  "normalizeBlueprintData (normalizeBlueprintData raw) = normalizeBlueprintData raw"
  by (rule normalize_idem)

section \<open>The inference loop: guards, rounds, rate limits\<close>

declare infer.simps [simp del] inferGeminiNative.simps [simp del]

lemma infer_message_limit:
  assumes "length (baseMessages args) > MAX_LLM_MESSAGES ext"
  shows "infer ext args c =
           (Inl (RateLimitExceededError
                   (MessageLimit (length (baseMessages args)) (MAX_LLM_MESSAGES ext)) None), [])"
  using assms by (subst infer.simps) simp

lemma infer_depth_guard:
  assumes "length (baseMessages args) \<le> MAX_LLM_MESSAGES ext"
    and "getMaxToolCallingDepth ext (actionKey args) \<le> depthOf c"
  shows "infer ext args c = (maxDepthResult ext args c, [])"
  using assms by (subst infer.simps) (simp add: depthExceeded_def)

lemma native_depth_guard:
  assumes "getMaxToolCallingDepth ext (actionKey args) \<le> depthOf c"
  shows "inferGeminiNative ext args c = (maxDepthResult ext args c, [])"
  using assms by (subst inferGeminiNative.simps) (simp add: depthExceeded_def)

lemma nativeRound_sent: "length (snd (nativeRound ext args c)) \<le> 1"
  by (simp add: nativeRound_def split: sum.splits)

lemma inferRound_sent: "length (snd (inferRound ext cfg args c)) \<le> 1"
  by (simp add: inferRound_def split: sum.splits prod.splits)

lemma native_rounds_bounded:
  "length (snd (inferGeminiNative ext args c)) \<le> getMaxToolCallingDepth ext (actionKey args) - depthOf c"
proof (induction ext args c rule: inferGeminiNative.induct)
  case (1 ext args c)
  show ?case
  proof (cases "depthExceeded ext args c")
    case True
    then show ?thesis by (subst inferGeminiNative.simps) simp
  next
    case False
    then have lt: "depthOf c < getMaxToolCallingDepth ext (actionKey args)"
      by (simp add: depthExceeded_def)
    obtain st sent where r: "nativeRound ext args c = (st, sent)" by (cases "nativeRound ext args c")
    have s: "length sent \<le> 1" using nativeRound_sent[of ext args c] r by simp
    show ?thesis
    proof (cases st)
      case (Done result)
      with False r s lt show ?thesis by (subst inferGeminiNative.simps) simp
    next
      case (Recurse args' c')
      with r have d: "args' = args \<and> depth c' = depthOf c + 1" by (simp add: nativeRound_Recurse)
      have "length (snd (inferGeminiNative ext args' (Some c')))
              \<le> getMaxToolCallingDepth ext (actionKey args') - depthOf (Some c')"
        using "1.IH"[OF False r[symmetric] Recurse] .
      then have "length (snd (inferGeminiNative ext args' (Some c')))
              \<le> getMaxToolCallingDepth ext (actionKey args) - (depthOf c + 1)"
        using d by (simp add: depthOf_def)
      with False r s lt Recurse show ?thesis
        by (subst inferGeminiNative.simps) (auto split: prod.splits)
    qed
  qed
qed

lemma infer_rounds_bounded:
  "length (snd (infer ext args c)) \<le> getMaxToolCallingDepth ext (actionKey args) - depthOf c"
proof (induction ext args c rule: infer.induct)
  case (1 ext args c)
  show ?case
  proof (cases "length (baseMessages args) > MAX_LLM_MESSAGES ext")
    case True
    then show ?thesis by (simp add: infer_message_limit)
  next
    case small: False
    show ?thesis
    proof (cases "depthExceeded ext args c")
      case True
      with small show ?thesis by (subst infer.simps) simp
    next
      case False
      then have lt: "depthOf c < getMaxToolCallingDepth ext (actionKey args)"
        by (simp add: depthExceeded_def)
      show ?thesis
      proof (cases "AI_MODEL_CONFIG ext (modelName args)")
        case None
        with small False show ?thesis by (subst infer.simps) simp
      next
        case (Some cfg)
        show ?thesis
        proof (cases "requiresNativeInference (mc_provider cfg)")
          case True
          with small False Some show ?thesis
            by (subst infer.simps) (simp add: native_rounds_bounded)
        next
          case standard: False
          obtain st sent where r: "inferRound ext cfg args c = (st, sent)"
            by (cases "inferRound ext cfg args c")
          have s: "length sent \<le> 1" using inferRound_sent[of ext cfg args c] r by simp
          show ?thesis
          proof (cases st)
            case (Done result)
            with small False Some standard r s lt show ?thesis by (subst infer.simps) simp
          next
            case (Recurse args' c')
            with r have d: "actionKey args' = actionKey args \<and> depth c' = depthOf c + 1"
              by (simp add: inferRound_Recurse)
            have "length (snd (infer ext args' (Some c')))
                    \<le> getMaxToolCallingDepth ext (actionKey args') - depthOf (Some c')"
              using "1.IH"[OF small False Some standard r[symmetric] Recurse] .
            then have "length (snd (infer ext args' (Some c')))
                    \<le> getMaxToolCallingDepth ext (actionKey args) - (depthOf c + 1)"
              using d by (simp add: depthOf_def)
            with small False Some standard r s lt Recurse show ?thesis
              by (subst infer.simps) (auto split: prod.splits)
          qed
        qed
      qed
    qed
  qed
qed

lemma geminiTryBlock_throws: "\<exists>e. geminiTryBlock ext res = Inl e"
  by (simp add: geminiTryBlock_def Let_def split: option.splits)

lemma geminiRateLimited_default:
  "geminiRateLimited ext res = RateLimitExceededError GeminiRateLimit (Some 34000)"
proof -
  obtain e where "geminiTryBlock ext res = Inl e" using geminiTryBlock_throws by blast
  then show ?thesis by (simp add: geminiRateLimited_def)
qed

text \<open>
  On the standard path the delay comes from the retry-after value alone; the error body is
  never read. A header of twelve seconds gives 12000 ms.
\<close>

lemma standard_429_header:
  "classifyTransportError (\<lambda>s. if s = ''12'' then Some 12 else None) c
     \<lparr>te_abort = False, te_status = Some 429, te_retryAfter = Some (RetryAfterString ''12''), te_text = []\<rparr>
   = RateLimitExceededError ApiRateLimit (Some 12000)"
  by (simp add: classifyTransportError_def retryDelayMs_def)

text \<open>
  C6. A 429 reply of the native endpoint with no retry-after header and the retry info
  \<open>retryDelay: "7.5s"\<close> in its body. The \<open>try\<close> block derives 7500 ms and throws the
  rate-limit error carrying it; the enclosing \<open>catch\<close> receives that error and throws the
  default instead, so the call fails with a delay of 34000 ms.
\<close>

theorem native_429_retry_info_lost:
  "geminiTryBlock
     (scripted \<lparr> JSON_parse := (\<lambda>t. Some (JObj [(''error'', JObj [(''details'',
                     JArr [JObj [(''@type'', JStr ''type.googleapis.com/google.rpc.RetryInfo''),
                                 (''retryDelay'', JStr ''7.5s'')]])])])),
                 parseFloat := (\<lambda>s. if s = ''7.5'' then Some (15 / 2) else None) \<rparr>)
     \<lparr>g_ok = False, g_status = 429, g_retryAfter = None, g_errorText = ''quota'', g_text = None\<rparr>
     = Inl (RateLimitExceededError GeminiRateLimit (Some 7500))
   \<and> geminiFailure
     (scripted \<lparr> JSON_parse := (\<lambda>t. Some (JObj [(''error'', JObj [(''details'',
                     JArr [JObj [(''@type'', JStr ''type.googleapis.com/google.rpc.RetryInfo''),
                                 (''retryDelay'', JStr ''7.5s'')]])])])),
                 parseFloat := (\<lambda>s. if s = ''7.5'' then Some (15 / 2) else None) \<rparr>)
     \<lparr>g_ok = False, g_status = 429, g_retryAfter = None, g_errorText = ''quota'', g_text = None\<rparr>
     = RateLimitExceededError GeminiRateLimit (Some 34000)"
proof
  show "geminiTryBlock
     (scripted \<lparr> JSON_parse := (\<lambda>t. Some (JObj [(''error'', JObj [(''details'',
                     JArr [JObj [(''@type'', JStr ''type.googleapis.com/google.rpc.RetryInfo''),
                                 (''retryDelay'', JStr ''7.5s'')]])])])),
                 parseFloat := (\<lambda>s. if s = ''7.5'' then Some (15 / 2) else None) \<rparr>)
     \<lparr>g_ok = False, g_status = 429, g_retryAfter = None, g_errorText = ''quota'', g_text = None\<rparr>
     = Inl (RateLimitExceededError GeminiRateLimit (Some 7500))"
    by (simp add: geminiTryBlock_def scripted_def nonEmpty_def retryInfoOf_def optMember_def member_def
          delaySeconds_def stripSuffixS_def Let_def)
  show "geminiFailure
     (scripted \<lparr> JSON_parse := (\<lambda>t. Some (JObj [(''error'', JObj [(''details'',
                     JArr [JObj [(''@type'', JStr ''type.googleapis.com/google.rpc.RetryInfo''),
                                 (''retryDelay'', JStr ''7.5s'')]])])])),
                 parseFloat := (\<lambda>s. if s = ''7.5'' then Some (15 / 2) else None) \<rparr>)
     \<lparr>g_ok = False, g_status = 429, g_retryAfter = None, g_errorText = ''quota'', g_text = None\<rparr>
     = RateLimitExceededError GeminiRateLimit (Some 34000)"
    by (simp add: geminiFailure_def geminiRateLimited_default)
qed

text \<open>
  C4. A structured call with a custom format and one tool. The second request carries the
  context of the first round, which ends with the tool message of the executed call. The
  sanitizer keeps that message; the format instructions are then appended by rebuilding the
  last message from its role and content, so the tool message is sent without name and
  without \<open>tool_call_id\<close>: an orphan in the sequence sent upstream.
\<close>

theorem format_instructions_orphan_tool_message:
  "last (last (snd (infer scripted (formattedArgs ''gpt'' [userMessage ''plan'']) None)))
     = \<lparr>role = Tool, content = Text (''{}'' @ [CHR 0x0A, CHR 0x0A] @ ''Reply in JSON.''),
        tool_calls = None, name = None, tool_call_id = None\<rparr>
   \<and> orphanAt [] (last (snd (infer scripted (formattedArgs ''gpt'' [userMessage ''plan'']) None))) 2"
  by code_simp

text \<open>
  C10. A call whose message list is longer than \<open>MAX_LLM_MESSAGES\<close> throws the rate-limit
  error of the message-limit check and sends nothing, whatever the context: the check
  precedes the depth guard, the model lookup, the sanitizer and every request.
\<close>

theorem message_limit_checked_first:
  assumes "length (baseMessages args) > MAX_LLM_MESSAGES ext"
  shows "infer ext args c =
           (Inl (RateLimitExceededError
                   (MessageLimit (length (baseMessages args)) (MAX_LLM_MESSAGES ext)) None), [])"
  using assms by (rule infer_message_limit)

theorem message_limit_checked_first_witness:
  "infer scripted (plainArgs ''gpt'' [userMessage ''a'', userMessage ''b'', userMessage ''c''])
     (Some (contextAtDepth 5))
     = (Inl (RateLimitExceededError (MessageLimit 3 2) None), [])"
  using message_limit_checked_first
    [of scripted "plainArgs ''gpt'' [userMessage ''a'', userMessage ''b'', userMessage ''c'']"
        "Some (contextAtDepth 5)"]
  by (simp add: scripted_def plainArgs_def)

text \<open>
  C3 (as stated) fails: at a depth beyond the limit, a caller without schema whose message
  list is too long does not receive the terminal notice; the call throws the rate-limit
  error.
\<close>

theorem depth_guard_after_message_limit_counterexample:
  "getMaxToolCallingDepth scripted
       (actionKey (plainArgs ''gpt'' [userMessage ''a'', userMessage ''b'', userMessage ''c'']))
     \<le> depthOf (Some (contextAtDepth 5))
   \<and> \<not> schema (plainArgs ''gpt'' [userMessage ''a'', userMessage ''b'', userMessage ''c''])
   \<and> fst (infer scripted (plainArgs ''gpt'' [userMessage ''a'', userMessage ''b'', userMessage ''c''])
            (Some (contextAtDepth 5)))
       = Inl (RateLimitExceededError (MessageLimit 3 2) None)
   \<and> fst (infer scripted (plainArgs ''gpt'' [userMessage ''a'', userMessage ''b'', userMessage ''c''])
            (Some (contextAtDepth 5)))
       \<noteq> Inr (InferResponseString ''[System: Maximum tool calling depth reached.]''
               (Some (contextAtDepth 5)))"
  by (simp add: infer_message_limit scripted_def plainArgs_def depthOf_def contextAtDepth_def)

text \<open>
  C3 (amended). For a call whose message list is within \<open>MAX_LLM_MESSAGES\<close> and whose
  context depth has reached the limit of its action, \<open>infer\<close> sends no request and ends at
  once: with a schema it throws the max-depth abort carrying the context, without one it
  returns the system notice together with the unchanged context. The native loop, entered
  at such a depth, does the same.
\<close>

theorem depth_guard_terminates:
  assumes "length (baseMessages args) \<le> MAX_LLM_MESSAGES ext"
    and "getMaxToolCallingDepth ext (actionKey args) \<le> depthOf c"
  shows "infer ext args c =
           ((if schema args
             then Inl (AbortError (MaxDepthExceeded (getMaxToolCallingDepth ext (actionKey args))) c)
             else Inr (InferResponseString ''[System: Maximum tool calling depth reached.]'' c)), [])
       \<and> inferGeminiNative ext args c =
           ((if schema args
             then Inl (AbortError (MaxDepthExceeded (getMaxToolCallingDepth ext (actionKey args))) c)
             else Inr (InferResponseString ''[System: Maximum tool calling depth reached.]'' c)), [])"
  using infer_depth_guard[OF assms] native_depth_guard[OF assms(2)]
  by (simp add: maxDepthResult_def)

theorem depth_guard_terminates_witness:
  "infer scripted (plainArgs ''gpt'' [userMessage ''a'']) (Some (contextAtDepth 2))
     = (Inr (InferResponseString ''[System: Maximum tool calling depth reached.]''
               (Some (contextAtDepth 2))), [])
   \<and> infer scripted (structuredArgs ''gpt'' [userMessage ''a'']) (Some (contextAtDepth 2))
     = (Inl (AbortError (MaxDepthExceeded 2) (Some (contextAtDepth 2))), [])"
  using depth_guard_terminates
          [of "plainArgs ''gpt'' [userMessage ''a'']" scripted "Some (contextAtDepth 2)"]
        depth_guard_terminates
          [of "structuredArgs ''gpt'' [userMessage ''a'']" scripted "Some (contextAtDepth 2)"]
  by (simp add: scripted_def plainArgs_def structuredArgs_def depthOf_def contextAtDepth_def)

text \<open>
  C9. The loop terminates (both recursive functions are total), and a call sends at most
  \<open>maxDepth(actionKey) - depth\<close> requests, hence at most \<open>maxDepth(actionKey)\<close>. Every
  context update raises the depth by exactly one, and the context a round passes to the
  recursive call is such an update, for the same action key.
\<close>

theorem inference_rounds_bounded:
  "length (snd (infer ext args c)) \<le> getMaxToolCallingDepth ext (actionKey args) - depthOf c
   \<and> length (snd (inferGeminiNative ext args c)) \<le> getMaxToolCallingDepth ext (actionKey args) - depthOf c
   \<and> depth (updateToolCallContext stringify c am ex det) = depthOf c + 1
   \<and> (inferRound ext cfg args c = (Recurse args' c', sent) \<longrightarrow>
        actionKey args' = actionKey args \<and> depth c' = depthOf c + 1)
   \<and> (nativeRound ext args c = (Recurse args' c', sent) \<longrightarrow>
        args' = args \<and> depth c' = depthOf c + 1)"
  by (intro conjI impI infer_rounds_bounded native_rounds_bounded depth_updateToolCallContext)
     (simp_all add: inferRound_Recurse nativeRound_Recurse)

theorem inference_rounds_bounded_witness:
  "length (snd (infer scripted (plainArgs ''gpt'' [userMessage ''hi'']) None)) = 2
   \<and> (case inferRound scripted \<lparr>mc_provider = ''openai''\<rparr> (plainArgs ''gpt'' [userMessage ''hi'']) None of
        (Recurse a c, s) \<Rightarrow> actionKey a = ''conversationalResponse'' \<and> depth c = 1
      | (Done r, s) \<Rightarrow> False)"
proof -
  have two: "length (snd (infer scripted (plainArgs ''gpt'' [userMessage ''hi'']) None)) = 2"
    by code_simp
  have rec: "case inferRound scripted \<lparr>mc_provider = ''openai''\<rparr> (plainArgs ''gpt'' [userMessage ''hi'']) None of
        (Recurse a c, s) \<Rightarrow> True | (Done r, s) \<Rightarrow> False"
    by code_simp
  then obtain a c s where
    r: "inferRound scripted \<lparr>mc_provider = ''openai''\<rparr> (plainArgs ''gpt'' [userMessage ''hi'']) None
          = (Recurse a c, s)"
    by (auto split: prod.splits step.splits)
  from inference_rounds_bounded
         [of scripted "plainArgs ''gpt'' [userMessage ''hi'']" None "\<lambda>v. []" undefined "[]" None
             "\<lparr>mc_provider = ''openai''\<rparr>" a c s]
       r
  have "actionKey a = actionKey (plainArgs ''gpt'' [userMessage ''hi'']) \<and> depth c = depthOf None + 1"
    by blast
  then have "actionKey a = ''conversationalResponse'' \<and> depth c = 1"
    by (simp add: plainArgs_def depthOf_def)
  with two r show ?thesis by simp
qed

end
